theory Spec2Isabelle
  imports Complex_Main "HOL-Library.Sublist"
begin

section \<open>The timeout runner: \<^verbatim>\<open>utils/run_with_timeout.py\<close>\<close>

subsection \<open>Text-mode pipes\<close>

text \<open>
  \<^verbatim>\<open>Popen(..., bufsize=0, text=True, universal_newlines=True)\<close> hands the supervisor two
  text-mode pipes. A \<open>string\<close> below is a sequence of decoded characters; decoding itself
  is not modelled. Text mode with universal newlines reads every \<open>\r\n\<close> and every lone
  \<open>\r\<close> as \<open>\n\<close>.
\<close>

abbreviation LF :: char where "LF \<equiv> CHR 0x0A"
abbreviation CR :: char where "CR \<equiv> CHR 0x0D"

fun universal_newlines :: "string \<Rightarrow> string" where
  "universal_newlines [] = []"
| "universal_newlines [c] = (if c = CR then [LF] else [c])"
| "universal_newlines (c # d # cs) =
     (if c = CR then
        (if d = LF then LF # universal_newlines cs else LF # universal_newlines (d # cs))
      else c # universal_newlines (d # cs))"

text \<open>
  The text still to come from a pipe, cut after its first newline: the next line with
  its terminator and what follows it, or the whole text when it holds no newline.
\<close>

fun next_line :: "string \<Rightarrow> string \<times> string" where
  "next_line [] = ([], [])"
| "next_line (c # cs) =
     (if c = LF then ([c], cs) else (case next_line cs of (l, r) \<Rightarrow> (c # l, r)))"

text \<open>
  \<^verbatim>\<open>fileobj.readline()\<close> waits for a newline or for end of stream. On the text still to
  come from a pipe it gives the next line with its terminator; when no newline is to
  come it gives the unterminated rest (the empty string once nothing is left), but only
  if the stream ever reaches its end. When neither a newline nor the end of the stream
  is to come, the call never returns: \<open>None\<close>. The result is the chunk and the text
  that stays in the pipe.
\<close>

definition readline :: "bool \<Rightarrow> string \<Rightarrow> (string \<times> string) option" where
  "readline eof_comes s = (if LF \<in> set s \<or> eof_comes then Some (next_line s) else None)"

subsection \<open>The child, the observations of one loop pass, the supervisor's state\<close>

datatype channel = Stdout | Stderr

datatype exc = TimeoutError | OtherError

text \<open>
  What the spawned command does: its process id, the processes it forked in turn, what
  is written on each stream over its whole life, whether each stream ever reaches its
  end (it does not while the child or a descendant lives on with the pipe open), the
  status \<^verbatim>\<open>proc.poll()\<close> reports once the child has exited, and whether \<^verbatim>\<open>proc.kill()\<close>
  raises.
\<close>

record child =
  pid :: nat
  descendants :: "nat list"
  stdout_data :: string
  stderr_data :: string
  stdout_closes :: bool
  stderr_closes :: bool
  exit_status :: int
  kill_raises :: bool

text \<open>
  What one pass of the \<^verbatim>\<open>while True\<close> loop observes: \<^verbatim>\<open>time.time() - start\<close> at the top,
  the channels \<^verbatim>\<open>sel.select(timeout=0.1)\<close> reports, the reads and the sink writes that
  raise in this pass, and whether \<^verbatim>\<open>proc.poll()\<close> finds the child exited. A run is driven
  by the list of the passes it reaches.
\<close>

record tick =
  elapsed :: real
  ready :: "channel list"
  read_faults :: "(channel \<times> exc) list"
  broken_sinks :: "channel list"
  exited :: bool

text \<open>
  The selector's registrations, the text still to come on each pipe, the two chunk lists
  \<^verbatim>\<open>stdout_buf\<close> and \<^verbatim>\<open>stderr_buf\<close>, and what has been mirrored to \<^verbatim>\<open>sys.stdout\<close> and
  \<^verbatim>\<open>sys.stderr\<close>.
\<close>

record state =
  registered :: "channel \<Rightarrow> bool"
  pipe :: "channel \<Rightarrow> string"
  bufs :: "channel \<Rightarrow> string list"
  sinks :: "channel \<Rightarrow> string list"

definition emitted :: "child \<Rightarrow> channel \<Rightarrow> string" where
  "emitted ch c = (case c of Stdout \<Rightarrow> stdout_data ch | Stderr \<Rightarrow> stderr_data ch)"

definition closes :: "child \<Rightarrow> channel \<Rightarrow> bool" where
  "closes ch c = (case c of Stdout \<Rightarrow> stdout_closes ch | Stderr \<Rightarrow> stderr_closes ch)"

definition spawn :: "child \<Rightarrow> state" where
  "spawn ch =
     \<lparr>registered = (\<lambda>c. True),
      pipe = (\<lambda>c. universal_newlines (emitted ch c)),
      bufs = (\<lambda>c. []),
      sinks = (\<lambda>c. [])\<rparr>"

definition poll :: "child \<Rightarrow> tick \<Rightarrow> int option" where
  "poll ch t = (if exited t then Some (exit_status ch) else None)"

subsection \<open>The drain loop\<close>

definition deadline_exceeded :: "real option \<Rightarrow> real \<Rightarrow> bool" where
  "deadline_exceeded timeout_sec el =
     (case timeout_sec of None \<Rightarrow> False | Some d \<Rightarrow> el > d)"

text \<open>\<^verbatim>\<open>sel.select\<close> reports registered channels only, each at most once.\<close>

definition events :: "tick \<Rightarrow> state \<Rightarrow> channel list" where
  "events t s = remdups (filter (registered s) (ready t))"

text \<open>
  The body of \<^verbatim>\<open>for key, _ in events\<close> for one channel. The read is not guarded: an
  exception of \<^verbatim>\<open>readline\<close> leaves the loop with the state as it is, and a read that
  never returns stops the call there. The write and flush to the sink are inside
  \<^verbatim>\<open>try ... except Exception: pass\<close>.
\<close>

datatype reads = Done state | Raising exc state | Blocking state

definition handle_event :: "child \<Rightarrow> tick \<Rightarrow> channel \<Rightarrow> state \<Rightarrow> reads" where
  "handle_event ch t c s =
     (case map_of (read_faults t) c of
        Some e \<Rightarrow> Raising e s
      | None \<Rightarrow>
          (case readline (closes ch c) (pipe s c) of
             None \<Rightarrow> Blocking s
           | Some (chunk, rest) \<Rightarrow>
               if chunk \<noteq> [] then
                 Done (s\<lparr>pipe := (pipe s)(c := rest),
                         bufs := (bufs s)(c := bufs s c @ [chunk]),
                         sinks := (if c \<in> set (broken_sinks t) then sinks s
                                   else (sinks s)(c := sinks s c @ [chunk]))\<rparr>)
               else Done (s\<lparr>registered := (registered s)(c := False)\<rparr>)))"

fun handle_events :: "child \<Rightarrow> tick \<Rightarrow> channel list \<Rightarrow> state \<Rightarrow> reads" where
  "handle_events ch t [] s = Done s"
| "handle_events ch t (c # cs) s =
     (case handle_event ch t c s of
        Done s' \<Rightarrow> handle_events ch t cs s'
      | Raising e s' \<Rightarrow> Raising e s'
      | Blocking s' \<Rightarrow> Blocking s')"

text \<open>
  How the \<^verbatim>\<open>try\<close> body ends: by \<^verbatim>\<open>break\<close> with the exit code, by a \<^verbatim>\<open>TimeoutError\<close> (which
  the handler catches wherever it was raised), or by any other exception, which nothing
  catches. A run is still going when the observed passes end, has ended, or is stuck
  for good in a read.
\<close>

datatype loop_exit = Break int | Timeout | Raise exc

datatype run = Running state | Ended loop_exit state | Blocked state

definition iteration :: "child \<Rightarrow> real option \<Rightarrow> tick \<Rightarrow> state \<Rightarrow> run" where
  "iteration ch timeout_sec t s =
     (if deadline_exceeded timeout_sec (elapsed t) then Ended Timeout s
      else
        (case handle_events ch t (events t s) s of
           Raising e s' \<Rightarrow> Ended (if e = TimeoutError then Timeout else Raise e) s'
         | Blocking s' \<Rightarrow> Blocked s'
         | Done s' \<Rightarrow>
             (case poll ch t of
                Some exit_code \<Rightarrow>
                  if events t s = [] then Ended (Break exit_code) s' else Running s'
              | None \<Rightarrow> Running s')))"

text \<open>The loop over the passes it reaches; \<open>Running\<close> when the list ends first.\<close>

fun drain :: "child \<Rightarrow> real option \<Rightarrow> tick list \<Rightarrow> state \<Rightarrow> run" where
  "drain ch timeout_sec [] s = Running s"
| "drain ch timeout_sec (t # ts) s =
     (case iteration ch timeout_sec t s of
        Running s' \<Rightarrow> drain ch timeout_sec ts s'
      | Ended e s' \<Rightarrow> Ended e s'
      | Blocked s' \<Rightarrow> Blocked s')"

subsection \<open>\<^verbatim>\<open>stream_process\<close>\<close>

text \<open>
  The value returned is the tuple \<^verbatim>\<open>(exit_code, "".join(stdout_buf), "".join(stderr_buf))\<close>,
  or an exception leaves the function. Beside it the model records what the call did to
  the world: the process ids \<^verbatim>\<open>proc.kill()\<close> signalled and the text mirrored to the two
  sinks. \<open>None\<close> stands for a call that has not returned: the loop is still running
  when the observations end, or a read never returns.
\<close>

datatype outcome = Returned "int \<times> string \<times> string" | Raised exc

record effects =
  killed :: "nat list"
  sys_stdout :: "string list"
  sys_stderr :: "string list"

definition joined :: "state \<Rightarrow> channel \<Rightarrow> string" where
  "joined s c = concat (bufs s c)"

definition done_with :: "nat list \<Rightarrow> state \<Rightarrow> effects" where
  "done_with ks s = \<lparr>killed = ks, sys_stdout = sinks s Stdout, sys_stderr = sinks s Stderr\<rparr>"

definition stream_process ::
  "child \<Rightarrow> real option \<Rightarrow> tick list \<Rightarrow> (outcome \<times> effects) option" where
  "stream_process ch timeout_sec ticks =
     (case drain ch timeout_sec ticks (spawn ch) of
        Running s \<Rightarrow> None
      | Blocked s \<Rightarrow> None
      | Ended (Break exit_code) s \<Rightarrow>
          Some (Returned (exit_code, joined s Stdout, joined s Stderr), done_with [] s)
      | Ended Timeout s \<Rightarrow>
          Some (Returned (124, joined s Stdout, joined s Stderr),
                done_with (if kill_raises ch then [] else [pid ch]) s)
      | Ended (Raise e) s \<Rightarrow> Some (Raised e, done_with [] s))"

subsection \<open>The command-line entry point \<^verbatim>\<open>main\<close>\<close>




text \<open>
  \<^verbatim>\<open>main\<close> after \<^verbatim>\<open>parse_args\<close>: the value handed to \<^verbatim>\<open>sys.exit\<close> (or the exception that
  leaves \<^verbatim>\<open>main\<close>), everything written to \<^verbatim>\<open>sys.stdout\<close> and \<^verbatim>\<open>sys.stderr\<close> in
  order (the live mirror of the child's streams, then what \<^verbatim>\<open>print\<close> adds, each line with
  its newline), and whether a process was started. \<^verbatim>\<open>args.timeout\<close> is an \<^verbatim>\<open>int\<close>.
\<close>

datatype cli_status = Exit int | Uncaught exc


text \<open>
  \<^verbatim>\<open>sys.exit(main())\<close>: an integer ends the process with that status modulo 256, an
  exception that leaves \<^verbatim>\<open>main\<close> with status 1.
\<close>

definition exit_code :: "cli_status \<Rightarrow> int" where
  "exit_code st = (case st of Exit n \<Rightarrow> n mod 256 | Uncaught e \<Rightarrow> 1)"



section \<open>The coverage filter: \<^verbatim>\<open>utils/filter_lcov_exclusions.py\<close>\<close>

subsection \<open>Strings\<close>

text \<open>\<^verbatim>\<open>s.startswith(p)\<close>, \<^verbatim>\<open>sub in s\<close>, \<^verbatim>\<open>s.strip()\<close>.\<close>

definition startswith :: "string \<Rightarrow> string \<Rightarrow> bool" where
  "startswith p s = (take (length p) s = p)"

fun contains :: "string \<Rightarrow> string \<Rightarrow> bool" where
  "contains sub [] = (sub = [])"
| "contains sub (c # cs) = (startswith sub (c # cs) \<or> contains sub cs)"

definition isspace :: "char \<Rightarrow> bool" where
  "isspace c = (c \<in> set [CHR '' '', CHR 0x09, CHR 0x0A, CHR 0x0B, CHR 0x0C, CHR 0x0D,
                         CHR 0x1C, CHR 0x1D, CHR 0x1E, CHR 0x1F, CHR 0x85, CHR 0xA0])"

definition strip :: "string \<Rightarrow> string" where
  "strip s = rev (dropWhile isspace (rev (dropWhile isspace s)))"

text \<open>
  \<^verbatim>\<open>re.match(tag + r'(\d+),', line)\<close> and its \<^verbatim>\<open>group(1)\<close>: the tag, one or more digits,
  then a comma. The digits are matched greedily, and giving some back cannot help, as a
  digit is not a comma.
\<close>

definition isdigit :: "char \<Rightarrow> bool" where
  "isdigit c = (c \<in> set ''0123456789'')"

definition re_match :: "string \<Rightarrow> string \<Rightarrow> string option" where
  "re_match tag line =
     (if startswith tag line then
        (let rest = drop (length tag) line; ds = takeWhile isdigit rest
         in if ds \<noteq> [] \<and> startswith '','' (drop (length ds) rest)
            then Some ds else None)
      else None)"

subsection \<open>The interpreter and the files\<close>

text \<open>
  Two settings of the interpreter that the script does not fix itself: \<^verbatim>\<open>os.linesep\<close>,
  which text mode writes for every \<open>\n\<close>, and the limit on the number of digits that
  \<^verbatim>\<open>int\<close> converts (\<^verbatim>\<open>sys.get_int_max_str_digits()\<close>, 4300 unless changed; 0 for no
  limit, as in interpreters that have none).
\<close>

record platform =
  linesep :: string
  int_max_str_digits :: nat

datatype py_error = FileNotFoundError | OtherOpenError | UnicodeDecodeError | ValueError

text \<open>\<^verbatim>\<open>int(digits)\<close> on a run of decimal digits: a \<^verbatim>\<open>ValueError\<close> beyond the limit.\<close>

definition int_of :: "string \<Rightarrow> nat" where
  "int_of ds = foldl (\<lambda>n c. 10 * n + (of_char c - 48)) 0 ds"

definition py_int :: "platform \<Rightarrow> string \<Rightarrow> py_error + nat" where
  "py_int pf ds =
     (if int_max_str_digits pf \<noteq> 0 \<and> int_max_str_digits pf < length ds
      then Inl ValueError else Inr (int_of ds))"

text \<open>
  The file system as \<^verbatim>\<open>open(path, 'r')\<close> and the reading that follows see it: no such
  file (\<^verbatim>\<open>FileNotFoundError\<close>); a path that \<^verbatim>\<open>open\<close> refuses with any other exception
  (permission denied, a directory); a file that opens but whose content is not text in
  the expected encoding, so that reading it raises \<^verbatim>\<open>UnicodeDecodeError\<close>; or a file with
  its content, as the characters it decodes to.
\<close>

datatype fs_entry = Missing | Unopenable | Undecodable | File string

text \<open>
  Reading in text mode translates the newlines and yields the content line by line,
  each line with its terminator, the last one possibly without. Writing in text mode
  puts \<^verbatim>\<open>os.linesep\<close> for every \<open>\n\<close>.
\<close>

fun lines_of :: "string \<Rightarrow> string list" where
  "lines_of [] = []"
| "lines_of (c # cs) =
     (if c = LF then [c] # lines_of cs
      else (case lines_of cs of [] \<Rightarrow> [[c]] | l # ls \<Rightarrow> (c # l) # ls))"

definition read_text :: "string \<Rightarrow> string list" where
  "read_text content = lines_of (universal_newlines content)"

definition write_text :: "string \<Rightarrow> string \<Rightarrow> string" where
  "write_text sep s = concat (map (\<lambda>c. if c = LF then sep else [c]) s)"

subsection \<open>\<^verbatim>\<open>find_excluded_lines\<close>\<close>

text \<open>
  One round of \<^verbatim>\<open>for line_num, line in enumerate(f, 1)\<close> on the pair
  \<^verbatim>\<open>(excluded, in_excl_block)\<close>.
\<close>

definition mark_line :: "nat set \<times> bool \<Rightarrow> nat \<times> string \<Rightarrow> nat set \<times> bool" where
  "mark_line st entry =
     (case (st, entry) of ((excluded, in_excl_block), (line_num, line)) \<Rightarrow>
        (let excluded = (if contains ''LCOV_EXCL_LINE'' line
                         then insert line_num excluded else excluded)
         in if contains ''LCOV_EXCL_START'' line then (insert line_num excluded, True)
            else if contains ''LCOV_EXCL_STOP'' line then (insert line_num excluded, False)
            else if in_excl_block then (insert line_num excluded, in_excl_block)
            else (excluded, in_excl_block)))"

text \<open>
  Only \<^verbatim>\<open>FileNotFoundError\<close> is caught, and it gives the empty set. Any other exception
  of \<^verbatim>\<open>open\<close>, and a decoding error while the lines are read, leave the function.
\<close>

definition find_excluded_lines :: "(string \<Rightarrow> fs_entry) \<Rightarrow> string \<Rightarrow> py_error + nat set" where
  "find_excluded_lines fs source_file =
     (case fs source_file of
        Missing \<Rightarrow> Inr {}
      | Unopenable \<Rightarrow> Inl OtherOpenError
      | Undecodable \<Rightarrow> Inl UnicodeDecodeError
      | File content \<Rightarrow>
          Inr (fst (foldl mark_line ({}, False) (enumerate 1 (read_text content)))))"

subsection \<open>\<^verbatim>\<open>filter_lcov\<close>\<close>

text \<open>
  The test of one \<open>DA:\<close> or \<open>BRDA:\<close> line: without a match the line is kept; with one,
  \<^verbatim>\<open>int\<close> converts the digits (and may raise) and the line is kept unless the number is
  excluded.
\<close>

definition keep_record ::
  "platform \<Rightarrow> string \<Rightarrow> nat set \<times> string list \<Rightarrow> string \<Rightarrow> py_error + nat set \<times> string list" where
  "keep_record pf tag st line =
     (case st of (excluded_lines, filtered_lines) \<Rightarrow>
        (case re_match tag line of
           Some digits \<Rightarrow>
             (case py_int pf digits of
                Inl e \<Rightarrow> Inl e
              | Inr line_num \<Rightarrow>
                  if line_num \<notin> excluded_lines
                  then Inr (excluded_lines, filtered_lines @ [line])
                  else Inr (excluded_lines, filtered_lines))
         | None \<Rightarrow> Inr (excluded_lines, filtered_lines @ [line])))"

text \<open>
  One round of \<^verbatim>\<open>for line in lines\<close> on the pair \<^verbatim>\<open>(excluded_lines, filtered_lines)\<close>;
  \<^verbatim>\<open>current_file\<close> is used for the lookup only.
\<close>

definition filter_line ::
  "platform \<Rightarrow> (string \<Rightarrow> fs_entry) \<Rightarrow> nat set \<times> string list \<Rightarrow> string \<Rightarrow>
     py_error + nat set \<times> string list" where
  "filter_line pf fs st line =
     (case st of (excluded_lines, filtered_lines) \<Rightarrow>
        if startswith ''SF:'' line then
          (case find_excluded_lines fs (strip (drop 3 line)) of
             Inl e \<Rightarrow> Inl e
           | Inr excluded \<Rightarrow> Inr (excluded, filtered_lines @ [line]))
        else if startswith ''DA:'' line then keep_record pf ''DA:'' st line
        else if startswith ''BRDA:'' line then keep_record pf ''BRDA:'' st line
        else Inr (excluded_lines, filtered_lines @ [line]))"

fun filter_lines ::
  "platform \<Rightarrow> (string \<Rightarrow> fs_entry) \<Rightarrow> string list \<Rightarrow> nat set \<times> string list \<Rightarrow>
     py_error + nat set \<times> string list" where
  "filter_lines pf fs [] st = Inr st"
| "filter_lines pf fs (line # rest) st =
     (case filter_line pf fs st line of
        Inl e \<Rightarrow> Inl e
      | Inr st' \<Rightarrow> filter_lines pf fs rest st')"

text \<open>
  The whole function: read the input in text mode, run the loop from
  \<^verbatim>\<open>excluded_lines = set()\<close> and \<^verbatim>\<open>filtered_lines = []\<close>, write the output in text mode.
  The result is the file system afterwards, or the exception that leaves the function,
  in which case nothing has been written.
\<close>

definition filter_lcov ::
  "platform \<Rightarrow> (string \<Rightarrow> fs_entry) \<Rightarrow> string \<Rightarrow> string \<Rightarrow> py_error + (string \<Rightarrow> fs_entry)" where
  "filter_lcov pf fs input_path output_path =
     (case fs input_path of
        Missing \<Rightarrow> Inl FileNotFoundError
      | Unopenable \<Rightarrow> Inl OtherOpenError
      | Undecodable \<Rightarrow> Inl UnicodeDecodeError
      | File content \<Rightarrow>
          (case filter_lines pf fs (read_text content) ({}, []) of
             Inl e \<Rightarrow> Inl e
           | Inr (excluded_lines, filtered_lines) \<Rightarrow>
               (case fs output_path of
                  Unopenable \<Rightarrow> Inl OtherOpenError
                | _ \<Rightarrow>
                    Inr (fs(output_path :=
                           File (write_text (linesep pf) (concat filtered_lines)))))))"

section \<open>Notions used by the properties\<close>

subsection \<open>The runner\<close>

text \<open>
  The invariant of the drain loop: on each channel the chunks collected so far, followed
  by the text still to come, are the text that the pipe delivers in all; and a channel
  is unregistered only at end of stream.
\<close>

definition captured_ok :: "child \<Rightarrow> state \<Rightarrow> bool" where
  "captured_ok ch s =
     (\<forall>c. joined s c @ pipe s c = universal_newlines (emitted ch c) \<and>
          (\<not> registered s c \<longrightarrow> pipe s c = []))"

fun state_of :: "run \<Rightarrow> state" where
  "state_of (Running s) = s"
| "state_of (Ended e s) = s"
| "state_of (Blocked s) = s"

fun reads_state :: "reads \<Rightarrow> state" where
  "reads_state (Done s) = s"
| "reads_state (Raising e s) = s"
| "reads_state (Blocking s) = s"

text \<open>A pass in which no read and no sink write raises.\<close>

definition pass :: "real \<Rightarrow> channel list \<Rightarrow> bool \<Rightarrow> tick" where
  "pass el chans ex =
     \<lparr>elapsed = el, ready = chans, read_faults = [], broken_sinks = [], exited = ex\<rparr>"

text \<open>
  \<^verbatim>\<open>echo hello\<close>, and a run of it: the line arrives, both pipes reach end of stream, and
  the next wait of a tenth of a second passes without events.
\<close>

definition echo_hello :: child where
  "echo_hello =
     \<lparr>pid = 100, descendants = [], stdout_data = ''hello'' @ [LF], stderr_data = [],
      stdout_closes = True, stderr_closes = True, exit_status = 0, kill_raises = False\<rparr>"

definition echo_run :: "tick list" where
  "echo_run = [pass 0 [Stdout] False, pass 0 [Stdout, Stderr] True, pass 0.1 [] True]"

text \<open>
  A child that ends its first line with \<open>\r\n\<close>, and a run that drains it to the end; a
  child that has forked another process.
\<close>

definition crlf_child :: child where
  "crlf_child =
     \<lparr>pid = 100, descendants = [], stdout_data = ''a'' @ [CR, LF] @ ''b'' @ [LF],
      stderr_data = [], stdout_closes = True, stderr_closes = True, exit_status = 0,
      kill_raises = False\<rparr>"

definition crlf_run :: "tick list" where
  "crlf_run =
     [pass 0 [Stdout] False, pass 0 [Stdout] False, pass 0 [Stdout, Stderr] True,
      pass 0.1 [] True]"

definition forking_child :: child where
  "forking_child =
     \<lparr>pid = 100, descendants = [101], stdout_data = [], stderr_data = [],
      stdout_closes = False, stderr_closes = False, exit_status = 0, kill_raises = False\<rparr>"

text \<open>
  A pass in which the read on the error stream raises; a pass in which both sinks are
  broken; and the passes that end the loop whatever the state: the clock is beyond the
  deadline, or the child has exited and no channel is reported.
\<close>

definition faulty_pass :: tick where
  "faulty_pass =
     \<lparr>elapsed = 0, ready = [Stderr, Stdout], read_faults = [(Stderr, OtherError)],
      broken_sinks = [], exited = False\<rparr>"

definition both_ready :: tick where
  "both_ready =
     \<lparr>elapsed = 0, ready = [Stderr, Stdout], read_faults = [],
      broken_sinks = [Stdout, Stderr], exited = False\<rparr>"

definition ends_loop :: "real option \<Rightarrow> tick \<Rightarrow> bool" where
  "ends_loop d t = (deadline_exceeded d (elapsed t) \<or> (exited t \<and> ready t = []))"



text \<open>
  A pass in which standard output is read and then the read on the error stream raises
  \<^verbatim>\<open>TimeoutError\<close>; a child that greets with twelve characters and lives on; and a run
  in which the child is seen exited well before the clock passes a deadline of one
  second, with output still being drained.
\<close>

definition timeout_read_pass :: tick where
  "timeout_read_pass =
     \<lparr>elapsed = 0, ready = [Stdout, Stderr], read_faults = [(Stderr, TimeoutError)],
      broken_sinks = [], exited = False\<rparr>"



subsection \<open>The coverage filter\<close>

text \<open>
  Source lines are numbered from 1. A line bears a marker when the marker's text occurs
  in it. After a prefix of a source file a block is open when some line bears a start
  marker and no later line bears a stop marker without bearing a start marker too.
\<close>

definition has_marker :: "string \<Rightarrow> string list \<Rightarrow> nat \<Rightarrow> bool" where
  "has_marker m src n = (1 \<le> n \<and> n \<le> length src \<and> contains m (src ! (n - 1)))"

definition open_block :: "string list \<Rightarrow> bool" where
  "open_block src =
     (\<exists>a\<in>{1..length src}. has_marker ''LCOV_EXCL_START'' src a \<and>
        (\<forall>k\<in>{a<..length src}.
           has_marker ''LCOV_EXCL_STOP'' src k \<longrightarrow> has_marker ''LCOV_EXCL_START'' src k))"

text \<open>
  The lines whose records are dropped: those that bear one of the three markers, and
  those that follow a start marker with no line in between that bears a stop marker
  and no start marker.
\<close>

definition marked_region :: "string list \<Rightarrow> nat set" where
  "marked_region src =
     {n \<in> {1..length src}.
        has_marker ''LCOV_EXCL_LINE'' src n \<or> has_marker ''LCOV_EXCL_START'' src n \<or>
        has_marker ''LCOV_EXCL_STOP'' src n \<or>
        (\<exists>a\<in>{1..<n}. has_marker ''LCOV_EXCL_START'' src a \<and>
           (\<forall>k\<in>{a<..<n}.
              has_marker ''LCOV_EXCL_STOP'' src k \<longrightarrow> has_marker ''LCOV_EXCL_START'' src k))}"

text \<open>
  The exclusion set in the words of the specification: every line that bears the
  single-line marker, and every line from a start marker through the matching stop
  marker, the first line after the start marker that bears a stop marker.
\<close>

definition spec_excluded :: "string list \<Rightarrow> nat set" where
  "spec_excluded src =
     {n \<in> {1..length src}.
        has_marker ''LCOV_EXCL_LINE'' src n \<or>
        (\<exists>a\<in>{1..n}. \<exists>b\<in>{n..length src}.
           has_marker ''LCOV_EXCL_START'' src a \<and> a < b \<and>
           has_marker ''LCOV_EXCL_STOP'' src b \<and>
           (\<forall>k\<in>{a<..<b}. \<not> has_marker ''LCOV_EXCL_STOP'' src k))}"

text \<open>
  The exclusion set of the source file that an \<open>SF:\<close> line names, empty when the file is
  missing; the set in force after the lines read so far, that of the last \<open>SF:\<close> line,
  empty when there is none. The digits of a record, what follows \<open>DA:\<close> or \<open>BRDA:\<close> when
  that is digits and a comma, and its line number. The record at index \<open>i\<close> of a
  coverage file is dropped when its line number lies in the set in force there.
\<close>

definition named_source :: "(string \<Rightarrow> fs_entry) \<Rightarrow> string \<Rightarrow> nat set" where
  "named_source fs line =
     (case fs (strip (drop 3 line)) of
        File content \<Rightarrow> marked_region (read_text content)
      | _ \<Rightarrow> {})"

definition exclusions_in_force :: "(string \<Rightarrow> fs_entry) \<Rightarrow> string list \<Rightarrow> nat set" where
  "exclusions_in_force fs seen =
     (if filter (startswith ''SF:'') seen = [] then {}
      else named_source fs (last (filter (startswith ''SF:'') seen)))"

definition record_digits :: "string \<Rightarrow> string option" where
  "record_digits line =
     (case re_match ''DA:'' line of Some ds \<Rightarrow> Some ds | None \<Rightarrow> re_match ''BRDA:'' line)"

definition record_number :: "string \<Rightarrow> nat option" where
  "record_number line = map_option int_of (record_digits line)"

definition dropped :: "(string \<Rightarrow> fs_entry) \<Rightarrow> string list \<Rightarrow> nat \<Rightarrow> bool" where
  "dropped fs lines i =
     (case record_number (lines ! i) of
        None \<Rightarrow> False
      | Some n \<Rightarrow> n \<in> exclusions_in_force fs (take i lines))"

text \<open>
  What a line of the coverage file must satisfy for the loop to get past it: the source
  that an \<open>SF:\<close> line names is missing or can be read as text, and the digits of a
  record are within the limit of \<^verbatim>\<open>int\<close>.
\<close>

definition passable :: "platform \<Rightarrow> (string \<Rightarrow> fs_entry) \<Rightarrow> string \<Rightarrow> bool" where
  "passable pf fs line =
     ((startswith ''SF:'' line \<longrightarrow>
         fs (strip (drop 3 line)) \<noteq> Unopenable \<and> fs (strip (drop 3 line)) \<noteq> Undecodable) \<and>
      (case record_digits line of
         None \<Rightarrow> True
       | Some ds \<Rightarrow> int_max_str_digits pf = 0 \<or> length ds \<le> int_max_str_digits pf))"

text \<open>
  A source file with a bracketed region on lines 10 to 15, a coverage file for it, and a
  small file system with them: one source holds a stop marker alone, one is missing, one
  cannot be opened, one is not text. The interpreter is that of a POSIX system.
\<close>

definition posix :: platform where
  "posix = \<lparr>linesep = [LF], int_max_str_digits = 4300\<rparr>"

definition a_c :: string where
  "a_c = concat (map (\<lambda>l. l @ [LF])
     [''int f() {'', ''  int r = 0;'', ''  r++;'', ''  r++;'', ''  r++;'', ''  r++;'',
      ''  r++;'', ''  r++;'', ''  r++;'', ''  // LCOV_EXCL_START'', ''  r--;'', ''  r--;'',
      ''  r--;'', ''  r--;'', ''  // LCOV_EXCL_STOP'', ''  r++;'', ''  r++;'', ''  r++;'',
      ''  r++;'', ''  return r; }''])"

definition coverage :: string where
  "coverage =
     ''SF:a.c'' @ [LF] @ ''DA:12,3'' @ [LF] @ ''DA:20,1'' @ [LF] @ ''end_of_record'' @ [LF]"

definition disk :: "string \<Rightarrow> fs_entry" where
  "disk p =
     (if p = ''a.c'' then File a_c
      else if p = ''b.c'' then File (''} // LCOV_EXCL_STOP'' @ [LF])
      else if p = ''in.lcov'' then File coverage
      else if p = ''stray.lcov'' then File (''SF:b.c'' @ [LF] @ ''DA:1,1'' @ [LF])
      else if p = ''gone.lcov'' then
        File (''SF:gone.c'' @ [LF] @ ''DA:1,1'' @ [LF] @ ''SF:a.c'' @ [LF] @ ''DA:12,3'' @ [LF])
      else if p = ''secret.lcov'' then File (''SF:secret.c'' @ [LF] @ ''DA:1,1'' @ [LF])
      else if p = ''secret.c'' then Unopenable
      else if p = ''blob.lcov'' then File (''SF:blob.bin'' @ [LF] @ ''DA:1,1'' @ [LF])
      else if p = ''blob.bin'' then Undecodable
      else Missing)"

section \<open>Properties of the runner\<close>

lemmas runner_defs =
  stream_process_def spawn_def iteration_def events_def handle_event_def readline_def
  deadline_exceeded_def poll_def emitted_def closes_def joined_def done_with_def pass_def

subsection \<open>Reading lines\<close>

lemma next_line_split: "next_line s = (l, r) \<Longrightarrow> l @ r = s"
  by (induction s arbitrary: l r) (auto split: if_splits prod.splits)

lemma next_line_empty: "next_line s = ([], r) \<Longrightarrow> s = []"
  by (cases s) (auto split: if_splits prod.splits)

lemma readline_next_line: "readline eof_comes s = Some (l, r) \<Longrightarrow> next_line s = (l, r)"
  by (simp add: readline_def split: if_splits)

lemma readline_at_eof: "readline True s = Some (next_line s)"
  by (simp add: readline_def)

lemma universal_newlines_plain: "CR \<notin> set s \<Longrightarrow> universal_newlines s = s"
  by (induction s rule: universal_newlines.induct) auto

subsection \<open>The invariant\<close>

lemma handle_event_raises:
  "handle_event ch t c s = Raising e s' \<Longrightarrow> s' = s \<and> map_of (read_faults t) c = Some e"
  by (auto simp: handle_event_def split: option.splits prod.splits if_splits)

lemma handle_event_blocks:
  "handle_event ch t c s = Blocking s' \<Longrightarrow>
     s' = s \<and> map_of (read_faults t) c = None \<and> readline (closes ch c) (pipe s c) = None"
  by (auto simp: handle_event_def split: option.splits prod.splits if_splits)

lemma handle_event_ok:
  assumes "captured_ok ch s" and "handle_event ch t c s = Done s'"
  shows "captured_ok ch s'"
proof -
  from assms(2) obtain chunk rest where
    rd: "readline (closes ch c) (pipe s c) = Some (chunk, rest)"
    by (auto simp: handle_event_def split: option.splits)
  then have rl: "next_line (pipe s c) = (chunk, rest)" by (rule readline_next_line)
  have sp: "chunk @ rest = pipe s c" using rl by (rule next_line_split)
  show ?thesis
  proof (cases "chunk = []")
    case True
    then have "pipe s c = []" using rl next_line_empty by blast
    with assms rd True show ?thesis
      by (auto simp: handle_event_def captured_ok_def joined_def
               split: option.splits if_splits)
  next
    case False
    with assms rd sp show ?thesis
      by (auto simp: handle_event_def captured_ok_def joined_def split: option.splits)
  qed
qed

lemma handle_events_ok:
  "captured_ok ch s \<Longrightarrow> captured_ok ch (reads_state (handle_events ch t cs s))"
proof (induction cs arbitrary: s)
  case Nil
  then show ?case by simp
next
  case (Cons c cs)
  show ?case
  proof (cases "handle_event ch t c s")
    case (Done s1)
    with Cons.prems have "captured_ok ch s1" by (auto dest: handle_event_ok)
    with Cons.IH Done show ?thesis by simp
  next
    case (Raising e s1)
    with Cons.prems handle_event_raises [OF Raising] show ?thesis by simp
  next
    case (Blocking s1)
    with Cons.prems handle_event_blocks [OF Blocking] show ?thesis by simp
  qed
qed

lemma iteration_ok: "captured_ok ch s \<Longrightarrow> captured_ok ch (state_of (iteration ch d t s))"
  using handle_events_ok [of ch s t "events t s"]
  by (auto simp: iteration_def split: reads.splits option.splits)

lemma drain_ok: "captured_ok ch s \<Longrightarrow> captured_ok ch (state_of (drain ch d ts s))"
proof (induction ts arbitrary: s)
  case Nil
  then show ?case by simp
next
  case (Cons t ts)
  from Cons.prems have "captured_ok ch (state_of (iteration ch d t s))"
    by (rule iteration_ok)
  then show ?case using Cons.IH by (cases "iteration ch d t s") auto
qed

lemma spawn_ok: "captured_ok ch (spawn ch)"
  by (simp add: captured_ok_def spawn_def joined_def)

lemma drain_append:
  "drain ch d pre s = Running s' \<Longrightarrow> drain ch d (pre @ ts) s = drain ch d ts s'"
  by (induction pre arbitrary: s) (auto split: run.splits)

subsection \<open>The normal exit of the loop\<close>

lemma iteration_break:
  "iteration ch d t s = Ended (Break c) s' \<Longrightarrow>
     poll ch t = Some c \<and> events t s = [] \<and> \<not> deadline_exceeded d (elapsed t) \<and> s' = s"
  by (auto simp: iteration_def split: if_splits reads.splits option.splits)

text \<open>
  C7. The loop leaves by \<^verbatim>\<open>break\<close> only in a pass that found the child exited and whose
  \<^verbatim>\<open>select\<close> reported no events (and whose deadline check did not fire): whenever the
  loop ends by its normal exit, the passes split into those that left it running, and
  the pass that ended it, in which \<^verbatim>\<open>poll\<close> gave the exit code and there were no events.
  So it never ends normally while the child runs or while the last pass had events.
\<close>

theorem normal_exit_needs_exit_and_no_events:
  assumes "drain ch timeout_sec ticks s = Ended (Break c) s'"
  shows "\<exists>pre t post. ticks = pre @ t # post \<and>
           drain ch timeout_sec pre s = Running s' \<and>
           poll ch t = Some c \<and> events t s' = [] \<and>
           \<not> deadline_exceeded timeout_sec (elapsed t)"
  using assms
proof (induction ticks arbitrary: s)
  case Nil
  then show ?case by simp
next
  case (Cons t ts)
  show ?case
  proof (cases "iteration ch timeout_sec t s")
    case (Running s1)
    with Cons.prems have "drain ch timeout_sec ts s1 = Ended (Break c) s'" by simp
    from Cons.IH [OF this] obtain pre u post where
      "ts = pre @ u # post" "drain ch timeout_sec pre s1 = Running s'"
      "poll ch u = Some c" "events u s' = []"
      "\<not> deadline_exceeded timeout_sec (elapsed u)"
      by blast
    with Running have "t # ts = (t # pre) @ u # post \<and>
        drain ch timeout_sec (t # pre) s = Running s' \<and>
        poll ch u = Some c \<and> events u s' = [] \<and>
        \<not> deadline_exceeded timeout_sec (elapsed u)"
      by simp
    then show ?thesis by blast
  next
    case (Ended e s1)
    with Cons.prems have it: "iteration ch timeout_sec t s = Ended (Break c) s'" by simp
    from iteration_break [OF it] have "t # ts = [] @ t # ts \<and>
        drain ch timeout_sec [] s = Running s' \<and>
        poll ch t = Some c \<and> events t s' = [] \<and>
        \<not> deadline_exceeded timeout_sec (elapsed t)"
      by simp
    then show ?thesis by blast
  next
    case (Blocked s1)
    with Cons.prems show ?thesis by simp
  qed
qed

theorem normal_exit_needs_exit_and_no_events_witness:
  "drain echo_hello None echo_run (spawn echo_hello) =
     Ended (Break 0) (state_of (drain echo_hello None echo_run (spawn echo_hello))) \<and>
   (\<exists>pre t post. echo_run = pre @ t # post \<and>
      drain echo_hello None pre (spawn echo_hello) =
        Running (state_of (drain echo_hello None echo_run (spawn echo_hello))) \<and>
      poll echo_hello t = Some 0 \<and>
      events t (state_of (drain echo_hello None echo_run (spawn echo_hello))) = [] \<and>
      \<not> deadline_exceeded None (elapsed t))"
proof -
  have h: "drain echo_hello None echo_run (spawn echo_hello) =
     Ended (Break 0) (state_of (drain echo_hello None echo_run (spawn echo_hello)))"
    by (simp add: runner_defs echo_hello_def echo_run_def)
  from normal_exit_needs_exit_and_no_events [OF h] h show ?thesis by blast
qed

subsection \<open>What the buffers hold\<close>

lemma captured_prefix:
  "captured_ok ch s \<Longrightarrow> prefix (joined s c) (universal_newlines (emitted ch c))"
  by (metis captured_ok_def prefixI)

lemma captured_all:
  "captured_ok ch s \<Longrightarrow> \<not> registered s c \<Longrightarrow>
     joined s c = universal_newlines (emitted ch c)"
  by (metis captured_ok_def append_Nil2)

lemma drain_timeout_at:
  "drain ch d pre s = Running s' \<Longrightarrow> deadline_exceeded d (elapsed t) \<Longrightarrow>
     drain ch d (pre @ t # post) s = Ended Timeout s'"
  by (simp add: drain_append iteration_def)

lemma drain_break_code:
  "drain ch d ticks s = Ended (Break c) s' \<Longrightarrow> c = exit_status ch"
proof (induction ticks arbitrary: s)
  case Nil
  then show ?case by simp
next
  case (Cons u us)
  then show ?case
    by (cases "iteration ch d u s")
       (auto dest!: iteration_break simp: poll_def split: if_splits)
qed

text \<open>
  C1, as amended. Whenever the loop reaches a pass whose clock reading is above the
  deadline, \<^verbatim>\<open>stream_process\<close> returns 124 with the two buffers as they stand at that
  moment, and each is a prefix of the full text of its stream as text mode delivers it,
  that is with every \<open>\r\n\<close> and lone \<open>\r\<close> read as \<open>\n\<close>; it is a prefix of the raw
  output when that holds no carriage return.
\<close>

theorem timeout_returns_124_and_prefix:
  assumes "drain ch timeout_sec pre (spawn ch) = Running s"
      and "deadline_exceeded timeout_sec (elapsed t)"
  shows "map_option fst (stream_process ch timeout_sec (pre @ t # post)) =
           Some (Returned (124, joined s Stdout, joined s Stderr)) \<and>
         prefix (joined s Stdout) (universal_newlines (stdout_data ch)) \<and>
         prefix (joined s Stderr) (universal_newlines (stderr_data ch)) \<and>
         (CR \<notin> set (stdout_data ch) \<longrightarrow> prefix (joined s Stdout) (stdout_data ch)) \<and>
         (CR \<notin> set (stderr_data ch) \<longrightarrow> prefix (joined s Stderr) (stderr_data ch))"
proof -
  have ok: "captured_ok ch s"
    using drain_ok [OF spawn_ok, of ch timeout_sec pre] assms(1) by simp
  have run: "drain ch timeout_sec (pre @ t # post) (spawn ch) = Ended Timeout s"
    using assms by (rule drain_timeout_at)
  have p: "prefix (joined s c) (universal_newlines (emitted ch c))" for c
    by (rule captured_prefix [OF ok])
  from run have "map_option fst (stream_process ch timeout_sec (pre @ t # post)) =
           Some (Returned (124, joined s Stdout, joined s Stderr))"
    by (simp add: stream_process_def)
  moreover have "prefix (joined s Stdout) (stdout_data ch)"
    if "CR \<notin> set (stdout_data ch)"
    using p [of Stdout] that by (simp add: emitted_def universal_newlines_plain)
  moreover have "prefix (joined s Stderr) (stderr_data ch)"
    if "CR \<notin> set (stderr_data ch)"
    using p [of Stderr] that by (simp add: emitted_def universal_newlines_plain)
  ultimately show ?thesis
    using p [of Stdout] p [of Stderr] by (simp add: emitted_def)
qed

theorem timeout_returns_124_and_prefix_witness:
  "drain echo_hello (Some 1) [pass 0 [Stdout] False] (spawn echo_hello) =
     Running (state_of (drain echo_hello (Some 1) [pass 0 [Stdout] False]
                (spawn echo_hello))) \<and>
   deadline_exceeded (Some 1) (elapsed (pass 2 [] False)) \<and>
   CR \<notin> set (stdout_data echo_hello) \<and> CR \<notin> set (stderr_data echo_hello) \<and>
   map_option fst (stream_process echo_hello (Some 1)
       ([pass 0 [Stdout] False] @ pass 2 [] False # [])) =
     Some (Returned (124, ''hello'' @ [LF], [])) \<and>
   prefix (''hello'' @ [LF]) (stdout_data echo_hello)"
proof -
  let ?s = "state_of (drain echo_hello (Some 1) [pass 0 [Stdout] False] (spawn echo_hello))"
  have h1: "drain echo_hello (Some 1) [pass 0 [Stdout] False] (spawn echo_hello) = Running ?s"
    by (simp add: runner_defs echo_hello_def)
  have h2: "deadline_exceeded (Some 1) (elapsed (pass 2 [] False))"
    by (simp add: runner_defs)
  have h3: "CR \<notin> set (stdout_data echo_hello)" "CR \<notin> set (stderr_data echo_hello)"
    by (simp_all add: echo_hello_def)
  have j: "joined ?s Stdout = ''hello'' @ [LF]" "joined ?s Stderr = []"
    by (simp_all add: runner_defs echo_hello_def)
  from timeout_returns_124_and_prefix [OF h1 h2, of "[]"] h1 h2 h3 j show ?thesis
    by simp
qed

text \<open>
  The prefix is not one of the raw output: the child writes \<open>a\r\nb\n\<close>, the first line
  is read as \<open>a\n\<close>, the deadline of one second passes, and the text returned with 124
  is no prefix of what the child wrote.
\<close>

theorem timeout_prefix_counterexample:
  "map_option fst (stream_process crlf_child (Some 1)
       [pass 0 [Stdout] False, pass 2 [] False]) =
     Some (Returned (124, ''a'' @ [LF], [])) \<and>
   \<not> prefix (''a'' @ [LF]) (stdout_data crlf_child)"
  by (simp add: runner_defs crlf_child_def)

text \<open>
  C2, as amended. When the loop leaves by its normal exit (no pass before found the
  deadline exceeded) after both channels were read to end of stream, \<^verbatim>\<open>stream_process\<close>
  returns the child's exit code, and the joined buffers are the child's full output on
  each stream as text mode delivers it: every \<open>\r\n\<close> and lone \<open>\r\<close> read as \<open>\n\<close>, and
  so the output itself, character for character, when it holds no carriage return.
\<close>

theorem normal_exit_returns_code_and_text:
  assumes "drain ch timeout_sec ticks (spawn ch) = Ended (Break c) s"
      and "\<not> registered s Stdout" and "\<not> registered s Stderr"
  shows "map_option fst (stream_process ch timeout_sec ticks) =
           Some (Returned (exit_status ch, universal_newlines (stdout_data ch),
                           universal_newlines (stderr_data ch))) \<and>
         (CR \<notin> set (stdout_data ch) \<and> CR \<notin> set (stderr_data ch) \<longrightarrow>
            map_option fst (stream_process ch timeout_sec ticks) =
              Some (Returned (exit_status ch, stdout_data ch, stderr_data ch)))"
proof -
  have ok: "captured_ok ch s"
    using drain_ok [OF spawn_ok, of ch timeout_sec ticks] assms(1) by simp
  have c: "c = exit_status ch" using assms(1) by (rule drain_break_code)
  have "joined s Stdout = universal_newlines (emitted ch Stdout)"
       "joined s Stderr = universal_newlines (emitted ch Stderr)"
    using captured_all [OF ok] assms(2,3) by blast+
  with assms(1) c show ?thesis
    by (simp add: stream_process_def emitted_def universal_newlines_plain)
qed

theorem normal_exit_returns_code_and_text_witness:
  "drain echo_hello (Some 5) echo_run (spawn echo_hello) =
     Ended (Break 0) (state_of (drain echo_hello (Some 5) echo_run (spawn echo_hello))) \<and>
   \<not> registered (state_of (drain echo_hello (Some 5) echo_run (spawn echo_hello))) Stdout \<and>
   \<not> registered (state_of (drain echo_hello (Some 5) echo_run (spawn echo_hello))) Stderr \<and>
   CR \<notin> set (stdout_data echo_hello) \<and> CR \<notin> set (stderr_data echo_hello) \<and>
   map_option fst (stream_process echo_hello (Some 5) echo_run) =
     Some (Returned (0, ''hello'' @ [LF], []))"
proof -
  let ?s = "state_of (drain echo_hello (Some 5) echo_run (spawn echo_hello))"
  have h1: "drain echo_hello (Some 5) echo_run (spawn echo_hello) = Ended (Break 0) ?s"
    by (simp add: runner_defs echo_hello_def echo_run_def)
  have h2: "\<not> registered ?s Stdout" and h3: "\<not> registered ?s Stderr"
    by (simp_all add: runner_defs echo_hello_def echo_run_def)
  have h4: "CR \<notin> set (stdout_data echo_hello)" "CR \<notin> set (stderr_data echo_hello)"
    by (simp_all add: echo_hello_def)
  from normal_exit_returns_code_and_text [OF h1 h2 h3] h1 h2 h3 h4 show ?thesis
    by (simp add: echo_hello_def)
qed

text \<open>
  Byte for byte it fails: the child writes \<open>a\r\nb\n\<close> and exits with 0 well inside a
  deadline of five seconds, both channels are read to end of stream, the loop leaves by
  its normal exit, and the text returned is \<open>a\nb\n\<close>.
\<close>

theorem byte_for_byte_counterexample:
  "drain crlf_child (Some 5) crlf_run (spawn crlf_child) =
     Ended (Break 0) (state_of (drain crlf_child (Some 5) crlf_run (spawn crlf_child))) \<and>
   \<not> registered (state_of (drain crlf_child (Some 5) crlf_run (spawn crlf_child))) Stdout \<and>
   \<not> registered (state_of (drain crlf_child (Some 5) crlf_run (spawn crlf_child))) Stderr \<and>
   map_option fst (stream_process crlf_child (Some 5) crlf_run) =
     Some (Returned (0, ''a'' @ [LF] @ ''b'' @ [LF], [])) \<and>
   stdout_data crlf_child \<noteq> ''a'' @ [LF] @ ''b'' @ [LF]"
  by (simp add: runner_defs crlf_child_def crlf_run_def)

subsection \<open>Ending the loop\<close>

lemma handle_events_raise_fault:
  "handle_events ch t cs s = Raising e s' \<Longrightarrow> \<exists>c\<in>set cs. map_of (read_faults t) c = Some e"
  by (induction cs arbitrary: s) (auto split: reads.splits dest: handle_event_raises)

lemma handle_events_block_open:
  "handle_events ch t cs s = Blocking s' \<Longrightarrow> \<exists>c\<in>set cs. \<not> closes ch c"
  by (induction cs arbitrary: s)
     (auto split: reads.splits dest!: handle_event_blocks simp: readline_def split: if_splits)

lemma iteration_no_raise:
  "read_faults t = [] \<Longrightarrow> iteration ch d t s \<noteq> Ended (Raise e) s'"
  by (auto simp: iteration_def split: reads.splits option.splits
           dest: handle_events_raise_fault)

lemma iteration_no_block:
  "stdout_closes ch \<Longrightarrow> stderr_closes ch \<Longrightarrow> iteration ch d t s \<noteq> Blocked s'"
proof
  assume c: "stdout_closes ch" "stderr_closes ch" and "iteration ch d t s = Blocked s'"
  then have "handle_events ch t (events t s) s = Blocking s'"
    by (auto simp: iteration_def split: if_splits reads.splits option.splits)
  from handle_events_block_open [OF this] obtain x where "\<not> closes ch x" by blast
  with c show False by (cases x) (simp_all add: closes_def)
qed

lemma drain_no_raise:
  "\<forall>u\<in>set ticks. read_faults u = [] \<Longrightarrow> drain ch d ticks s \<noteq> Ended (Raise e) s'"
proof (induction ticks arbitrary: s)
  case Nil
  then show ?case by simp
next
  case (Cons u us)
  then show ?case
    using iteration_no_raise [of u ch d s e s']
    by (cases "iteration ch d u s") auto
qed


lemma iteration_ends:
  "ends_loop d t \<Longrightarrow> \<exists>e s'. iteration ch d t s = Ended e s'"
  by (auto simp: ends_loop_def iteration_def events_def poll_def)

lemma drain_ends:
  assumes "t \<in> set ticks" and "ends_loop d t"
  shows "(\<exists>e s'. drain ch d ticks s = Ended e s') \<or> (\<exists>s'. drain ch d ticks s = Blocked s')"
  using assms(1)
proof (induction ticks arbitrary: s)
  case Nil
  then show ?case by simp
next
  case (Cons u us)
  show ?case
  proof (cases "iteration ch d u s")
    case (Ended e s1)
    then show ?thesis by simp
  next
    case (Blocked s1)
    then show ?thesis by simp
  next
    case (Running s1)
    then have "u \<noteq> t" using iteration_ends [OF assms(2), of ch s] by auto
    with Cons.prems have "t \<in> set us" by simp
    from Cons.IH [OF this] Running show ?thesis by simp
  qed
qed

lemma drain_no_block:
  "stdout_closes ch \<Longrightarrow> stderr_closes ch \<Longrightarrow> drain ch d ticks s \<noteq> Blocked s'"
proof (induction ticks arbitrary: s)
  case Nil
  then show ?case by simp
next
  case (Cons u us)
  then show ?case
    using iteration_no_block [of ch d u s s']
    by (cases "iteration ch d u s") auto
qed

lemma returned_is_prefix:
  assumes "stream_process ch d ticks = Some (Returned (code, out, err), fx)"
  shows "(code = 124 \<or> code = exit_status ch) \<and>
         prefix out (universal_newlines (stdout_data ch)) \<and>
         prefix err (universal_newlines (stderr_data ch))"
proof -
  have ok: "captured_ok ch (state_of (drain ch d ticks (spawn ch)))"
    by (rule drain_ok [OF spawn_ok])
  have p: "prefix (joined (state_of (drain ch d ticks (spawn ch))) c)
             (universal_newlines (emitted ch c))" for c
    by (rule captured_prefix [OF ok])
  from p [of Stdout] p [of Stderr] assms show ?thesis
    by (auto simp: stream_process_def emitted_def split: run.splits loop_exit.splits
             dest: drain_break_code)
qed

lemma ended_returns:
  assumes "t \<in> set ticks" and "ends_loop d t"
      and "\<forall>s'. drain ch d ticks (spawn ch) \<noteq> Blocked s'"
  shows "\<exists>r fx. stream_process ch d ticks = Some (r, fx)"
proof -
  from drain_ends [OF assms(1,2), of ch "spawn ch"] assms(3)
  obtain e s' where "drain ch d ticks (spawn ch) = Ended e s'"
    by blast
  then show ?thesis by (cases e) (simp_all add: stream_process_def)
qed

lemma no_fault_returned:
  assumes "stream_process ch d ticks = Some (r, fx)" and "\<forall>u\<in>set ticks. read_faults u = []"
  shows "\<exists>code out err. r = Returned (code, out, err)"
proof (cases "drain ch d ticks (spawn ch)")
  case (Running s)
  with assms(1) show ?thesis by (simp add: stream_process_def)
next
  case (Blocked s)
  with assms(1) show ?thesis by (simp add: stream_process_def)
next
  case (Ended e s)
  with drain_no_raise [OF assms(2), of ch d "spawn ch"] have "\<And>x. e \<noteq> Raise x" by auto
  with Ended assms(1) show ?thesis by (cases e) (auto simp: stream_process_def)
qed

lemma killed_child_only:
  "stream_process ch d ticks = Some (r, fx) \<Longrightarrow> set (killed fx) \<subseteq> {pid ch}"
  by (auto simp: stream_process_def done_with_def split: run.splits loop_exit.splits if_splits)

text \<open>
  C5, as amended. When a pass finds the deadline exceeded, \<^verbatim>\<open>stream_process\<close> calls
  \<^verbatim>\<open>proc.kill()\<close>, which signals the child process alone (and a failure of the call is
  swallowed). No run ever signals anything but the child: neither its process group nor
  the processes it forked are terminated.
\<close>

theorem timeout_kills_the_child_alone:
  assumes "drain ch timeout_sec pre (spawn ch) = Running s"
      and "deadline_exceeded timeout_sec (elapsed t)"
  shows "map_option (killed \<circ> snd) (stream_process ch timeout_sec (pre @ t # post)) =
           Some (if kill_raises ch then [] else [pid ch]) \<and>
         (\<forall>ticks r fx. stream_process ch timeout_sec ticks = Some (r, fx) \<longrightarrow>
            set (killed fx) \<subseteq> {pid ch})"
proof -
  have "drain ch timeout_sec (pre @ t # post) (spawn ch) = Ended Timeout s"
    using assms by (rule drain_timeout_at)
  then show ?thesis
    using killed_child_only [of ch timeout_sec] by (simp add: stream_process_def done_with_def) 
qed

theorem timeout_kills_the_child_alone_witness:
  "drain forking_child (Some 1) [pass 0 [] False] (spawn forking_child) =
     Running (state_of (drain forking_child (Some 1) [pass 0 [] False] (spawn forking_child))) \<and>
   deadline_exceeded (Some 1) (elapsed (pass 2 [] False)) \<and>
   stream_process forking_child (Some 1) [pass 0 [] False, pass 2 [] False] =
     Some (Returned (124, [], []), \<lparr>killed = [100], sys_stdout = [], sys_stderr = []\<rparr>) \<and>
   map_option (killed \<circ> snd)
     (stream_process forking_child (Some 1) ([pass 0 [] False] @ pass 2 [] False # [])) = Some [100] \<and>
   set [100] \<subseteq> {pid forking_child}"
proof -
  let ?s = "state_of (drain forking_child (Some 1) [pass 0 [] False] (spawn forking_child))"
  have h1: "drain forking_child (Some 1) [pass 0 [] False] (spawn forking_child) = Running ?s"
    by (simp add: runner_defs forking_child_def)
  have h2: "deadline_exceeded (Some 1) (elapsed (pass 2 [] False))"
    by (simp add: runner_defs)
  have h3: "stream_process forking_child (Some 1) [pass 0 [] False, pass 2 [] False] =
     Some (Returned (124, [], []), \<lparr>killed = [100], sys_stdout = [], sys_stderr = []\<rparr>)"
    by (simp add: runner_defs forking_child_def)
  from timeout_kills_the_child_alone [OF h1 h2, of "[]"] h1 h2 h3 show ?thesis
    by (auto simp: forking_child_def)
qed

text \<open>
  The descendants are left alone: the child 100 has forked process 101, the deadline of
  one second passes, and the only process signalled is 100.
\<close>

theorem descendants_survive_counterexample:
  "stream_process forking_child (Some 1) [pass 0 [] False, pass 2 [] False] =
     Some (Returned (124, [], []), \<lparr>killed = [100], sys_stdout = [], sys_stderr = []\<rparr>) \<and>
   descendants forking_child = [101]"
  by (simp add: runner_defs forking_child_def)

text \<open>
  C6, as amended. Every invocation whose loop ends (some pass finds the deadline
  exceeded, or finds the child exited with no channel reported) and in which no read
  raises or waits for ever returns exactly one record,
  and the record has three components: the exit status (the child's, or 124), the
  accumulated standard-output text and the accumulated standard-error text. The elapsed
  time of the run is not part of it.
\<close>

theorem every_return_is_one_triple:
  assumes "t \<in> set ticks" and "ends_loop timeout_sec t"
      and "\<forall>u\<in>set ticks. read_faults u = []"
      and "\<forall>s'. drain ch timeout_sec ticks (spawn ch) \<noteq> Blocked s'"
  shows "\<exists>!r. map_option fst (stream_process ch timeout_sec ticks) = Some (Returned r) \<and>
           (fst r = 124 \<or> fst r = exit_status ch) \<and>
           prefix (fst (snd r)) (universal_newlines (stdout_data ch)) \<and>
           prefix (snd (snd r)) (universal_newlines (stderr_data ch))"
proof -
  from ended_returns [OF assms(1,2,4)] obtain r fx where
    sp: "stream_process ch timeout_sec ticks = Some (r, fx)" by blast
  from no_fault_returned [OF sp assms(3)] obtain code out err where
    r: "r = Returned (code, out, err)" by blast
  from returned_is_prefix [OF sp [unfolded r]] sp r show ?thesis
    by auto
qed

theorem every_return_is_one_triple_witness:
  "pass 0.1 [] True \<in> set echo_run \<and> ends_loop (Some 5) (pass 0.1 [] True) \<and>
   list_all (\<lambda>u. read_faults u = []) echo_run \<and>
   drain echo_hello (Some 5) echo_run (spawn echo_hello) =
     Ended (Break 0) (state_of (drain echo_hello (Some 5) echo_run (spawn echo_hello))) \<and>
   map_option fst (stream_process echo_hello (Some 5) echo_run) =
     Some (Returned (0, ''hello'' @ [LF], []))"
proof -
  have h1: "pass 0.1 [] True \<in> set echo_run" by (simp add: echo_run_def)
  have h2: "ends_loop (Some 5) (pass 0.1 [] True)" by (simp add: ends_loop_def runner_defs)
  have h3: "\<forall>u\<in>set echo_run. read_faults u = []" by (simp add: echo_run_def pass_def)
  have v: "map_option fst (stream_process echo_hello (Some 5) echo_run) =
     Some (Returned (0, ''hello'' @ [LF], []))"
    by (simp add: runner_defs echo_hello_def echo_run_def)
  have e: "drain echo_hello (Some 5) echo_run (spawn echo_hello) =
     Ended (Break 0) (state_of (drain echo_hello (Some 5) echo_run (spawn echo_hello)))"
    by (simp add: runner_defs echo_hello_def echo_run_def)
  have "\<exists>x y. drain echo_hello (Some 5) echo_run (spawn echo_hello) = Ended x y"
    by (intro exI) (rule e)
  then have h4: "\<forall>s'. drain echo_hello (Some 5) echo_run (spawn echo_hello) \<noteq> Blocked s'"
    by auto
  from every_return_is_one_triple [OF h1 h2 h3 h4] h1 h2 h3 e v show ?thesis
    by (simp add: list_all_iff)
qed

text \<open>
  The record holds no elapsed time: two runs that differ in the clock reading alone
  return the same value.
\<close>

theorem no_elapsed_time_counterexample:
  "elapsed (pass 1 [] True) \<noteq> elapsed (pass 2 [] True) \<and>
   stream_process echo_hello None [pass 1 [] True] =
     Some (Returned (0, [], []), \<lparr>killed = [], sys_stdout = [], sys_stderr = []\<rparr>) \<and>
   stream_process echo_hello None [pass 2 [] True] =
     Some (Returned (0, [], []), \<lparr>killed = [], sys_stdout = [], sys_stderr = []\<rparr>)"
  by (simp add: runner_defs echo_hello_def)

subsection \<open>A deadline of 0\<close>

text \<open>
  When the first clock reading is already above 0, the call is back at once: the child
  is killed and 124 comes with empty buffers.
\<close>

lemma deadline_zero_first_check:
  assumes "0 < elapsed t"
  shows "stream_process ch (Some 0) (t # later) =
           Some (Returned (124, [], []),
                 \<lparr>killed = (if kill_raises ch then [] else [pid ch]),
                  sys_stdout = [], sys_stderr = []\<rparr>)"
proof -
  from assms have "iteration ch (Some 0) t (spawn ch) = Ended Timeout (spawn ch)"
    by (simp add: iteration_def deadline_exceeded_def)
  then show ?thesis
    by (simp add: stream_process_def joined_def done_with_def spawn_def)
qed


subsection \<open>Faults during a pass\<close>

lemma handle_event_drains:
  assumes "map_of (read_faults t) c = None"
      and "readline (closes ch c) (pipe s c) \<noteq> None"
  shows "\<exists>s'. handle_event ch t c s = Done s' \<and>
     (\<forall>x. bufs s' x = (if x = c \<and> pipe s c \<noteq> []
                       then bufs s c @ [fst (next_line (pipe s c))] else bufs s x)) \<and>
     (\<forall>x. registered s' x = (registered s x \<and> \<not> (x = c \<and> pipe s c = []))) \<and>
     (\<forall>x. pipe s' x = (if x = c then snd (next_line (pipe s c)) else pipe s x))"
proof -
  from assms(2) obtain chunk rest where
    rd: "readline (closes ch c) (pipe s c) = Some (chunk, rest)" by auto
  then have rl: "next_line (pipe s c) = (chunk, rest)" by (rule readline_next_line)
  have e: "chunk = [] \<longleftrightarrow> pipe s c = []"
    using rl next_line_empty by (cases "pipe s c") (auto split: if_splits prod.splits)
  show ?thesis
    using assms(1) rd rl e by (cases "chunk = []") (auto simp: handle_event_def)
qed

lemma handle_events_drains:
  assumes "distinct cs"
      and "\<forall>c\<in>set cs. map_of (read_faults t) c = None \<and>
                        readline (closes ch c) (pipe s c) \<noteq> None"
  shows "\<exists>s'. handle_events ch t cs s = Done s' \<and>
     (\<forall>x. bufs s' x = (if x \<in> set cs \<and> pipe s x \<noteq> []
                       then bufs s x @ [fst (next_line (pipe s x))] else bufs s x)) \<and>
     (\<forall>x. registered s' x = (registered s x \<and> \<not> (x \<in> set cs \<and> pipe s x = []))) \<and>
     (\<forall>x. pipe s' x = (if x \<in> set cs then snd (next_line (pipe s x)) else pipe s x))"
  using assms
proof (induction cs arbitrary: s)
  case Nil
  then show ?case by simp
next
  case (Cons c cs)
  from Cons.prems have nf: "map_of (read_faults t) c = None"
    and nb: "readline (closes ch c) (pipe s c) \<noteq> None" by simp_all
  from handle_event_drains [OF nf nb] obtain s1 where
    s1: "handle_event ch t c s = Done s1"
    and b1: "\<And>x. bufs s1 x = (if x = c \<and> pipe s c \<noteq> []
                       then bufs s c @ [fst (next_line (pipe s c))] else bufs s x)"
    and r1: "\<And>x. registered s1 x = (registered s x \<and> \<not> (x = c \<and> pipe s c = []))"
    and p1: "\<And>x. pipe s1 x = (if x = c then snd (next_line (pipe s c)) else pipe s x)"
    by blast
  from Cons.prems have d: "distinct cs" "c \<notin> set cs" by simp_all
  have d2: "\<forall>x\<in>set cs. map_of (read_faults t) x = None \<and>
                        readline (closes ch x) (pipe s1 x) \<noteq> None"
    using Cons.prems(2) d(2) p1 by auto
  from Cons.IH [OF d(1) d2] obtain s2 where
    s2: "handle_events ch t cs s1 = Done s2"
    and b2: "\<And>x. bufs s2 x = (if x \<in> set cs \<and> pipe s1 x \<noteq> []
                       then bufs s1 x @ [fst (next_line (pipe s1 x))] else bufs s1 x)"
    and r2: "\<And>x. registered s2 x = (registered s1 x \<and> \<not> (x \<in> set cs \<and> pipe s1 x = []))"
    and p2: "\<And>x. pipe s2 x = (if x \<in> set cs then snd (next_line (pipe s1 x)) else pipe s1 x)"
    by blast
  have "handle_events ch t (c # cs) s = Done s2" using s1 s2 by simp
  moreover have "bufs s2 x = (if x \<in> set (c # cs) \<and> pipe s x \<noteq> []
                       then bufs s x @ [fst (next_line (pipe s x))] else bufs s x)" for x
    using b1 [of x] b2 [of x] p1 [of x] d(2) by auto
  moreover have "registered s2 x =
      (registered s x \<and> \<not> (x \<in> set (c # cs) \<and> pipe s x = []))" for x
    using r1 [of x] r2 [of x] p1 [of x] d(2) by auto
  moreover have "pipe s2 x =
      (if x \<in> set (c # cs) then snd (next_line (pipe s x)) else pipe s x)" for x
    using p1 [of x] p2 [of x] d(2) by auto
  ultimately show ?case by blast
qed

lemma handle_events_stop_at_fault:
  assumes "handle_events ch t cs s = Done s'" and "map_of (read_faults t) c = Some e"
  shows "handle_events ch t (cs @ c # rest) s = Raising e s'"
  using assms(1)
proof (induction cs arbitrary: s)
  case Nil
  with assms(2) show ?case by (simp add: handle_event_def)
next
  case (Cons x xs)
  then show ?case by (cases "handle_event ch t x s") auto
qed

text \<open>
  C4, as amended. A failed read on one output channel does abort the drain. The read is
  not guarded: in the pass where it raises, the channels reported before it have been
  drained, the failing channel and those after it are not, and no later pass runs. A
  \<^verbatim>\<open>TimeoutError\<close> is taken by the loop's own handler for a timeout (the child is killed
  and 124 returned with the buffers so far); any other exception leaves
  \<^verbatim>\<open>stream_process\<close>. What leaves the loop running and the other channel being drained
  is a failed write to a sink and end of stream on a channel: in a pass where the
  deadline check does not fire and every read returns, whichever sinks are broken, each
  reported channel with text left has its next line appended to its buffer, each
  reported channel at end of stream is unregistered, and the others stay as they were.
\<close>

theorem read_failure_ends_the_loop:
  assumes "drain ch timeout_sec before (spawn ch) = Running s"
      and "\<not> deadline_exceeded timeout_sec (elapsed t)"
  shows "((\<forall>x\<in>set (events t s). map_of (read_faults t) x = None \<and>
                                 readline (closes ch x) (pipe s x) \<noteq> None) \<longrightarrow>
          (\<exists>s'. (iteration ch timeout_sec t s = Running s' \<or>
                 iteration ch timeout_sec t s = Ended (Break (exit_status ch)) s') \<and>
                (\<forall>x. bufs s' x =
                       (if x \<in> set (events t s) \<and> pipe s x \<noteq> []
                        then bufs s x @ [fst (next_line (pipe s x))] else bufs s x)) \<and>
                (\<forall>x. registered s' x =
                       (registered s x \<and> \<not> (x \<in> set (events t s) \<and> pipe s x = []))))) \<and>
         (\<forall>cs c rest e.
            events t s = cs @ c # rest \<and>
            (\<forall>x\<in>set cs. map_of (read_faults t) x = None \<and>
                          readline (closes ch x) (pipe s x) \<noteq> None) \<and>
            map_of (read_faults t) c = Some e \<longrightarrow>
            (\<exists>s'. handle_events ch t cs s = Done s' \<and>
                  (\<forall>x. bufs s' x =
                         (if x \<in> set cs \<and> pipe s x \<noteq> []
                          then bufs s x @ [fst (next_line (pipe s x))] else bufs s x)) \<and>
                  (\<forall>x. registered s' x =
                         (registered s x \<and> \<not> (x \<in> set cs \<and> pipe s x = []))) \<and>
                  (\<forall>x. x \<notin> set cs \<longrightarrow> pipe s' x = pipe s x) \<and>
                  stream_process ch timeout_sec (before @ t # later) =
                    Some (if e = TimeoutError
                          then (Returned (124, joined s' Stdout, joined s' Stderr),
                                done_with (if kill_raises ch then [] else [pid ch]) s')
                          else (Raised e, done_with [] s'))))"
proof -
  have d: "distinct (events t s)" by (simp add: events_def)
  have a: "\<exists>s'. (iteration ch timeout_sec t s = Running s' \<or>
                 iteration ch timeout_sec t s = Ended (Break (exit_status ch)) s') \<and>
                (\<forall>x. bufs s' x =
                       (if x \<in> set (events t s) \<and> pipe s x \<noteq> []
                        then bufs s x @ [fst (next_line (pipe s x))] else bufs s x)) \<and>
                (\<forall>x. registered s' x =
                       (registered s x \<and> \<not> (x \<in> set (events t s) \<and> pipe s x = [])))"
    if ok: "\<forall>x\<in>set (events t s). map_of (read_faults t) x = None \<and>
                                 readline (closes ch x) (pipe s x) \<noteq> None"
  proof -
    from handle_events_drains [OF d ok] obtain s' where
      h: "handle_events ch t (events t s) s = Done s'"
      and b: "\<forall>x. bufs s' x = (if x \<in> set (events t s) \<and> pipe s x \<noteq> []
                       then bufs s x @ [fst (next_line (pipe s x))] else bufs s x)"
      and r: "\<forall>x. registered s' x =
                 (registered s x \<and> \<not> (x \<in> set (events t s) \<and> pipe s x = []))"
      by blast
    have "iteration ch timeout_sec t s = Running s' \<or>
          iteration ch timeout_sec t s = Ended (Break (exit_status ch)) s'"
      using h assms(2) by (simp add: iteration_def poll_def)
    with b r show ?thesis by blast
  qed
  have b: "\<exists>s'. handle_events ch t cs s = Done s' \<and>
                  (\<forall>x. bufs s' x =
                         (if x \<in> set cs \<and> pipe s x \<noteq> []
                          then bufs s x @ [fst (next_line (pipe s x))] else bufs s x)) \<and>
                  (\<forall>x. registered s' x =
                         (registered s x \<and> \<not> (x \<in> set cs \<and> pipe s x = []))) \<and>
                  (\<forall>x. x \<notin> set cs \<longrightarrow> pipe s' x = pipe s x) \<and>
                  stream_process ch timeout_sec (before @ t # later) =
                    Some (if e = TimeoutError
                          then (Returned (124, joined s' Stdout, joined s' Stderr),
                                done_with (if kill_raises ch then [] else [pid ch]) s')
                          else (Raised e, done_with [] s'))"
    if ev: "events t s = cs @ c # rest"
      and ok: "\<forall>x\<in>set cs. map_of (read_faults t) x = None \<and>
                          readline (closes ch x) (pipe s x) \<noteq> None"
      and f: "map_of (read_faults t) c = Some e"
    for cs c rest e
  proof -
    from d ev have dc: "distinct cs" by simp
    from handle_events_drains [OF dc ok] obtain s' where
      h: "handle_events ch t cs s = Done s'"
      and bb: "\<forall>x. bufs s' x = (if x \<in> set cs \<and> pipe s x \<noteq> []
                       then bufs s x @ [fst (next_line (pipe s x))] else bufs s x)"
      and rr: "\<forall>x. registered s' x = (registered s x \<and> \<not> (x \<in> set cs \<and> pipe s x = []))"
      and pp: "\<forall>x. pipe s' x = (if x \<in> set cs then snd (next_line (pipe s x)) else pipe s x)"
      by blast
    from handle_events_stop_at_fault [OF h f, of rest] ev
    have "handle_events ch t (events t s) s = Raising e s'" by simp
    with assms(2) have "iteration ch timeout_sec t s =
        Ended (if e = TimeoutError then Timeout else Raise e) s'"
      by (simp add: iteration_def)
    with assms(1) have "drain ch timeout_sec (before @ t # later) (spawn ch) =
        Ended (if e = TimeoutError then Timeout else Raise e) s'"
      by (simp add: drain_append)
    then have "stream_process ch timeout_sec (before @ t # later) =
                    Some (if e = TimeoutError
                          then (Returned (124, joined s' Stdout, joined s' Stderr),
                                done_with (if kill_raises ch then [] else [pid ch]) s')
                          else (Raised e, done_with [] s'))"
      by (simp add: stream_process_def)
    with h bb rr pp show ?thesis by auto
  qed
  from a b show ?thesis by blast
qed

theorem read_failure_ends_the_loop_witness:
  "drain echo_hello (Some 5) [] (spawn echo_hello) = Running (spawn echo_hello) \<and>
   \<not> deadline_exceeded (Some 5) (elapsed both_ready) \<and>
   \<not> deadline_exceeded (Some 5) (elapsed faulty_pass) \<and>
   \<not> deadline_exceeded (Some 5) (elapsed timeout_read_pass) \<and>
   list_all (\<lambda>x. map_of (read_faults both_ready) x = None \<and>
                 readline (closes echo_hello x) (pipe (spawn echo_hello) x) \<noteq> None)
     (events both_ready (spawn echo_hello)) \<and>
   iteration echo_hello (Some 5) both_ready (spawn echo_hello) =
     Running (state_of (iteration echo_hello (Some 5) both_ready (spawn echo_hello))) \<and>
   bufs (state_of (iteration echo_hello (Some 5) both_ready (spawn echo_hello))) Stdout =
     [''hello'' @ [LF]] \<and>
   \<not> registered (state_of (iteration echo_hello (Some 5) both_ready (spawn echo_hello))) Stderr \<and>
   events faulty_pass (spawn echo_hello) = [] @ Stderr # [Stdout] \<and>
   map_of (read_faults faulty_pass) Stderr = Some OtherError \<and>
   map_option fst (stream_process echo_hello (Some 5) ([] @ faulty_pass # echo_run)) =
     Some (Raised OtherError) \<and>
   events timeout_read_pass (spawn echo_hello) = [Stdout] @ Stderr # [] \<and>
   map_of (read_faults timeout_read_pass) Stdout = None \<and>
   readline (closes echo_hello Stdout) (pipe (spawn echo_hello) Stdout) \<noteq> None \<and>
   map_of (read_faults timeout_read_pass) Stderr = Some TimeoutError \<and>
   stream_process echo_hello (Some 5) ([] @ timeout_read_pass # echo_run) =
     Some (Returned (124, ''hello'' @ [LF], []),
           \<lparr>killed = [100], sys_stdout = [''hello'' @ [LF]], sys_stderr = []\<rparr>)"
proof -
  let ?s = "spawn echo_hello"
  let ?s' = "state_of (iteration echo_hello (Some 5) both_ready ?s)"
  have h1: "drain echo_hello (Some 5) [] ?s = Running ?s" by simp
  have h2: "\<not> deadline_exceeded (Some 5) (elapsed both_ready)"
    by (simp add: both_ready_def deadline_exceeded_def)
  have h3: "\<not> deadline_exceeded (Some 5) (elapsed faulty_pass)"
    by (simp add: faulty_pass_def deadline_exceeded_def)
  have h4: "\<not> deadline_exceeded (Some 5) (elapsed timeout_read_pass)"
    by (simp add: timeout_read_pass_def deadline_exceeded_def)
  have ev1: "events both_ready ?s = [Stderr, Stdout]"
    by (simp add: events_def both_ready_def spawn_def)
  have ev2: "events faulty_pass ?s = [] @ Stderr # [Stdout]"
    by (simp add: events_def faulty_pass_def spawn_def)
  have ev3: "events timeout_read_pass ?s = [Stdout] @ Stderr # []"
    by (simp add: events_def timeout_read_pass_def spawn_def)
  have pp: "pipe ?s Stdout = ''hello'' @ [LF]" "pipe ?s Stderr = []"
           "bufs ?s Stdout = []" "bufs ?s Stderr = []"
           "registered ?s Stdout" "registered ?s Stderr"
           "sinks ?s Stdout = []" "sinks ?s Stderr = []"
    by (simp_all add: spawn_def emitted_def echo_hello_def)
  have rd: "readline (closes echo_hello Stdout) (pipe ?s Stdout) \<noteq> None"
           "readline (closes echo_hello Stderr) (pipe ?s Stderr) \<noteq> None"
    by (simp_all add: pp readline_def closes_def echo_hello_def)
  have a1: "\<forall>x\<in>set (events both_ready ?s). map_of (read_faults both_ready) x = None \<and>
              readline (closes echo_hello x) (pipe ?s x) \<noteq> None"
    unfolding ev1 using rd by (simp add: both_ready_def)
  have f2: "map_of (read_faults faulty_pass) Stderr = Some OtherError"
    by (simp add: faulty_pass_def)
  have n3: "map_of (read_faults timeout_read_pass) Stdout = None"
    and f3: "map_of (read_faults timeout_read_pass) Stderr = Some TimeoutError"
    by (simp_all add: timeout_read_pass_def)
  from read_failure_ends_the_loop [OF h1 h2, THEN conjunct1, THEN mp, OF a1]
  obtain s' where
    it: "iteration echo_hello (Some 5) both_ready ?s = Running s' \<or>
         iteration echo_hello (Some 5) both_ready ?s = Ended (Break (exit_status echo_hello)) s'"
    and b: "\<forall>x. bufs s' x = (if x \<in> set (events both_ready ?s) \<and> pipe ?s x \<noteq> []
                  then bufs ?s x @ [fst (next_line (pipe ?s x))] else bufs ?s x)"
    and r: "\<forall>x. registered s' x =
               (registered ?s x \<and> \<not> (x \<in> set (events both_ready ?s) \<and> pipe ?s x = []))"
    by blast
  have run: "iteration echo_hello (Some 5) both_ready ?s = Running ?s'"
    by (simp add: runner_defs both_ready_def echo_hello_def)
  with it have s': "s' = ?s'" by auto
  from b [rule_format, of Stdout] r [rule_format, of Stderr]
  have r1: "bufs ?s' Stdout = [''hello'' @ [LF]]" "\<not> registered ?s' Stderr"
    unfolding s' by (simp_all add: ev1 pp)
  from read_failure_ends_the_loop [OF h1 h3, of echo_run, THEN conjunct2, THEN spec,
         THEN spec, THEN spec, THEN spec, of "[]" Stderr "[Stdout]" OtherError] ev2 f2
  have r2: "map_option fst (stream_process echo_hello (Some 5) ([] @ faulty_pass # echo_run)) =
     Some (Raised OtherError)"
    by auto
  from read_failure_ends_the_loop [OF h1 h4, of echo_run, THEN conjunct2, THEN spec,
         THEN spec, THEN spec, THEN spec, of "[Stdout]" Stderr "[]" TimeoutError]
       ev3 n3 f3 rd(1)
  obtain s3 where he: "handle_events echo_hello timeout_read_pass [Stdout] ?s = Done s3"
    and sp: "stream_process echo_hello (Some 5) ([] @ timeout_read_pass # echo_run) =
      Some (Returned (124, joined s3 Stdout, joined s3 Stderr),
            done_with (if kill_raises echo_hello then [] else [pid echo_hello]) s3)"
    by auto
  have "handle_events echo_hello timeout_read_pass [Stdout] ?s =
        Done (reads_state (handle_events echo_hello timeout_read_pass [Stdout] ?s))"
    by (simp add: runner_defs timeout_read_pass_def echo_hello_def)
  with he have s3: "s3 = reads_state (handle_events echo_hello timeout_read_pass [Stdout] ?s)"
    by simp
  have r3: "stream_process echo_hello (Some 5) ([] @ timeout_read_pass # echo_run) =
     Some (Returned (124, ''hello'' @ [LF], []),
           \<lparr>killed = [100], sys_stdout = [''hello'' @ [LF]], sys_stderr = []\<rparr>)"
    unfolding sp s3 by (simp add: runner_defs timeout_read_pass_def echo_hello_def)
  from h1 h2 h3 h4 a1 run r1 ev2 f2 r2 ev3 n3 rd(1) f3 r3 show ?thesis
    by (simp add: list_all_iff)
qed

text \<open>
  The read on the error stream fails in the first pass: the loop ends there with the
  exception, standard output is never drained, and the call leaves with the exception
  although the child goes on to write and exit.
\<close>

theorem read_error_aborts_counterexample:
  "iteration echo_hello None faulty_pass (spawn echo_hello) =
     Ended (Raise OtherError) (spawn echo_hello) \<and>
   map_option fst (stream_process echo_hello None (faulty_pass # echo_run)) =
     Some (Raised OtherError)"
  by (simp add: runner_defs faulty_pass_def echo_hello_def echo_run_def)

section \<open>Properties of the command-line entry point\<close>




section \<open>Properties of the coverage filter\<close>

lemmas lcov_defs =
  filter_lcov_def filter_line_def keep_record_def find_excluded_lines_def mark_line_def
  re_match_def py_int_def read_text_def write_text_def startswith_def strip_def
  isspace_def isdigit_def int_of_def enumerate_eq_zip

subsection \<open>The exclusion set that the scan computes\<close>

lemma has_marker_snoc:
  "has_marker m (src @ [l]) n =
     (if n = Suc (length src) then contains m l else has_marker m src n)"
  by (auto simp: has_marker_def nth_append)

lemma has_marker_bound: "has_marker m src n \<Longrightarrow> 1 \<le> n \<and> n \<le> length src"
  by (simp add: has_marker_def)

lemma open_block_snoc:
  "open_block (src @ [l]) =
     (contains ''LCOV_EXCL_START'' l \<or>
      (\<not> contains ''LCOV_EXCL_STOP'' l \<and> open_block src))"
proof (cases "contains ''LCOV_EXCL_START'' l")
  case True
  then have "has_marker ''LCOV_EXCL_START'' (src @ [l]) (Suc (length src))"
    by (simp add: has_marker_snoc)
  then have "open_block (src @ [l])"
    unfolding open_block_def by (intro bexI [of _ "Suc (length src)"]) auto
  with True show ?thesis by simp
next
  case False
  show ?thesis
  proof (cases "contains ''LCOV_EXCL_STOP'' l")
    case True
    have "\<not> open_block (src @ [l])"
    proof
      assume "open_block (src @ [l])"
      then obtain a where a: "a \<in> {1..length (src @ [l])}"
        "has_marker ''LCOV_EXCL_START'' (src @ [l]) a"
        "\<forall>k\<in>{a<..length (src @ [l])}. has_marker ''LCOV_EXCL_STOP'' (src @ [l]) k \<longrightarrow>
            has_marker ''LCOV_EXCL_START'' (src @ [l]) k"
        unfolding open_block_def by blast
      from a(2) False have "a \<noteq> Suc (length src)" by (auto simp: has_marker_snoc)
      with a(1) have "Suc (length src) \<in> {a<..length (src @ [l])}" by auto
      with a(3) have "has_marker ''LCOV_EXCL_STOP'' (src @ [l]) (Suc (length src)) \<longrightarrow>
            has_marker ''LCOV_EXCL_START'' (src @ [l]) (Suc (length src))"
        by blast
      with True False show False by (simp add: has_marker_snoc)
    qed
    with True False show ?thesis by simp
  next
    case nostop: False
    have "open_block (src @ [l]) = open_block src"
    proof
      assume "open_block (src @ [l])"
      then obtain a where a: "a \<in> {1..length (src @ [l])}"
        "has_marker ''LCOV_EXCL_START'' (src @ [l]) a"
        "\<forall>k\<in>{a<..length (src @ [l])}. has_marker ''LCOV_EXCL_STOP'' (src @ [l]) k \<longrightarrow>
            has_marker ''LCOV_EXCL_START'' (src @ [l]) k"
        unfolding open_block_def by blast
      from a(2) False have ne: "a \<noteq> Suc (length src)" by (auto simp: has_marker_snoc)
      with a(1) have a1: "a \<in> {1..length src}" by auto
      from a(2) ne have a2: "has_marker ''LCOV_EXCL_START'' src a" by (simp add: has_marker_snoc)
      have "\<forall>k\<in>{a<..length src}. has_marker ''LCOV_EXCL_STOP'' src k \<longrightarrow>
            has_marker ''LCOV_EXCL_START'' src k"
      proof
        fix k assume k: "k \<in> {a<..length src}"
        then have kk: "k \<in> {a<..length (src @ [l])}" "k \<noteq> Suc (length src)" by auto
        with a(3) have "has_marker ''LCOV_EXCL_STOP'' (src @ [l]) k \<longrightarrow>
            has_marker ''LCOV_EXCL_START'' (src @ [l]) k"
          by blast
        with kk(2) show "has_marker ''LCOV_EXCL_STOP'' src k \<longrightarrow> has_marker ''LCOV_EXCL_START'' src k"
          by (simp add: has_marker_snoc)
      qed
      with a1 a2 show "open_block src" unfolding open_block_def by blast
    next
      assume "open_block src"
      then obtain a where a: "a \<in> {1..length src}"
        "has_marker ''LCOV_EXCL_START'' src a"
        "\<forall>k\<in>{a<..length src}. has_marker ''LCOV_EXCL_STOP'' src k \<longrightarrow>
            has_marker ''LCOV_EXCL_START'' src k"
        unfolding open_block_def by blast
      from a(1) have a1: "a \<in> {1..length (src @ [l])}" "a \<noteq> Suc (length src)" by auto
      with a(2) have a2: "has_marker ''LCOV_EXCL_START'' (src @ [l]) a" by (simp add: has_marker_snoc)
      have "\<forall>k\<in>{a<..length (src @ [l])}. has_marker ''LCOV_EXCL_STOP'' (src @ [l]) k \<longrightarrow>
            has_marker ''LCOV_EXCL_START'' (src @ [l]) k"
      proof
        fix k assume k: "k \<in> {a<..length (src @ [l])}"
        show "has_marker ''LCOV_EXCL_STOP'' (src @ [l]) k \<longrightarrow> has_marker ''LCOV_EXCL_START'' (src @ [l]) k"
        proof (cases "k = Suc (length src)")
          case True
          with nostop show ?thesis by (simp add: has_marker_snoc)
        next
          case False
          with k have "k \<in> {a<..length src}" by auto
          with a(3) have "has_marker ''LCOV_EXCL_STOP'' src k \<longrightarrow>
              has_marker ''LCOV_EXCL_START'' src k"
            by blast
          with False show ?thesis by (simp add: has_marker_snoc)
        qed
      qed
      with a1(1) a2 show "open_block (src @ [l])" unfolding open_block_def by blast
    qed
    with False nostop show ?thesis by simp
  qed
qed

lemma in_block_before:
  "(\<exists>a\<in>{1..<n}. has_marker ''LCOV_EXCL_START'' src a \<and>
      (\<forall>k\<in>{a<..<n}. has_marker ''LCOV_EXCL_STOP'' src k \<longrightarrow> has_marker ''LCOV_EXCL_START'' src k))
   = (1 \<le> n \<and> open_block (take (n - 1) src))" if "n \<le> Suc (length src)"
proof -
  have hm: "has_marker m (take (n - 1) src) k = (k < n \<and> has_marker m src k)" for m k
    using that by (auto simp: has_marker_def)
  have r1: "{1..length (take (n - 1) src)} = {1..<n}" using that by auto
  have r2: "{a<..length (take (n - 1) src)} = {a<..<n}" for a using that by auto
  show ?thesis
    unfolding open_block_def r1 r2 hm by auto
qed

lemma marked_region_snoc:
  "marked_region (src @ [l]) =
     marked_region src \<union>
     (if contains ''LCOV_EXCL_LINE'' l \<or> contains ''LCOV_EXCL_START'' l \<or>
         contains ''LCOV_EXCL_STOP'' l \<or> open_block src
      then {Suc (length src)} else {})"
proof -
  have old: "n \<in> marked_region (src @ [l]) \<longleftrightarrow> n \<in> marked_region src" if "n \<le> length src" for n
  proof -
    have t: "take (n - 1) (src @ [l]) = take (n - 1) src" using that by simp
    have "n \<le> Suc (length (src @ [l]))" "n \<le> Suc (length src)" using that by auto
    from in_block_before [OF this(1)] in_block_before [OF this(2)] that show ?thesis
      unfolding marked_region_def by (simp add: has_marker_snoc t del: take_append)
  qed
  have new: "Suc (length src) \<in> marked_region (src @ [l]) \<longleftrightarrow>
      contains ''LCOV_EXCL_LINE'' l \<or> contains ''LCOV_EXCL_START'' l \<or>
         contains ''LCOV_EXCL_STOP'' l \<or> open_block src"
  proof -
    have "Suc (length src) \<le> Suc (length (src @ [l]))" by simp
    from in_block_before [OF this] show ?thesis
      unfolding marked_region_def by (simp add: has_marker_snoc)
  qed
  have bound: "n \<in> marked_region xs \<Longrightarrow> 1 \<le> n \<and> n \<le> length xs" for n xs
    by (simp add: marked_region_def)
  show ?thesis
  proof (rule set_eqI)
    fix n
    show "n \<in> marked_region (src @ [l]) \<longleftrightarrow> n \<in> marked_region src \<union>
     (if contains ''LCOV_EXCL_LINE'' l \<or> contains ''LCOV_EXCL_START'' l \<or>
         contains ''LCOV_EXCL_STOP'' l \<or> open_block src
      then {Suc (length src)} else {})"
    proof (cases "n \<le> length src")
      case True
      with old [OF True] show ?thesis by auto
    next
      case False
      show ?thesis
      proof (cases "n = Suc (length src)")
        case True
        with new bound [of n src] show ?thesis by auto
      next
        case f: False
        with False bound [of n src] bound [of n "src @ [l]"] show ?thesis by auto
      qed
    qed
  qed
qed

lemma scan_result:
  "foldl mark_line ({}, False) (enumerate 1 src) = (marked_region src, open_block src)"
proof (induction src rule: rev_induct)
  case Nil
  show ?case by (simp add: marked_region_def open_block_def)
next
  case (snoc l src)
  have "foldl mark_line ({}, False) (enumerate 1 (src @ [l])) =
        mark_line (marked_region src, open_block src) (Suc (length src), l)"
    using snoc by (simp add: enumerate_append_eq)
  also have "\<dots> = (marked_region (src @ [l]), open_block (src @ [l]))"
    by (auto simp: mark_line_def marked_region_snoc open_block_snoc Let_def)
  finally show ?case .
qed


lemma find_excluded_lines_eq:
  "find_excluded_lines fs p =
     (case fs p of
        Missing \<Rightarrow> Inr {}
      | Unopenable \<Rightarrow> Inl OtherOpenError
      | Undecodable \<Rightarrow> Inl UnicodeDecodeError
      | File content \<Rightarrow> Inr (marked_region (read_text content)))"
  unfolding find_excluded_lines_def scan_result by (simp split: fs_entry.splits)

subsection \<open>One line of the coverage file\<close>

lemma sf_not_record:
  "startswith ''SF:'' l \<Longrightarrow> \<not> startswith ''DA:'' l \<and> \<not> startswith ''BRDA:'' l"
  by (cases l) (auto simp: startswith_def)

lemma da_not_brda: "startswith ''DA:'' l \<Longrightarrow> \<not> startswith ''BRDA:'' l"
  by (cases l) (auto simp: startswith_def)

lemma record_digits_cases:
  "record_digits l =
     (if startswith ''DA:'' l then re_match ''DA:'' l
      else if startswith ''BRDA:'' l then re_match ''BRDA:'' l else None)"
proof -
  have a: "re_match tag l = None" if "\<not> startswith tag l" for tag
    using that by (simp add: re_match_def)
  show ?thesis
    using a [of "''DA:''"] a [of "''BRDA:''"] da_not_brda [of l]
    by (auto simp: record_digits_def split: option.splits)
qed

lemma keep_record_eq:
  assumes "case re_match tag l of None \<Rightarrow> True
           | Some ds \<Rightarrow> int_max_str_digits pf = 0 \<or> length ds \<le> int_max_str_digits pf"
  shows "keep_record pf tag (ex, acc) l =
     Inr (ex, if (case map_option int_of (re_match tag l) of
                    None \<Rightarrow> False | Some n \<Rightarrow> n \<in> ex)
              then acc else acc @ [l])"
  using assms by (auto simp: keep_record_def py_int_def split: option.splits)

lemma filter_line_eq:
  assumes "passable pf fs l"
  shows "filter_line pf fs (ex, acc) l =
     Inr (if startswith ''SF:'' l then named_source fs l else ex,
          if (case record_number l of None \<Rightarrow> False | Some n \<Rightarrow> n \<in> ex)
          then acc else acc @ [l])"
proof (cases "startswith ''SF:'' l")
  case True
  with sf_not_record [OF True] assms show ?thesis
    by (auto simp: filter_line_def find_excluded_lines_eq named_source_def passable_def
                   record_number_def record_digits_cases
             split: fs_entry.splits)
next
  case False
  show ?thesis
  proof (cases "startswith ''DA:'' l")
    case True
    with assms have "case re_match ''DA:'' l of None \<Rightarrow> True
           | Some ds \<Rightarrow> int_max_str_digits pf = 0 \<or> length ds \<le> int_max_str_digits pf"
      by (simp add: passable_def record_digits_cases)
    from keep_record_eq [OF this, of ex acc] True False show ?thesis
      by (simp add: filter_line_def record_number_def record_digits_cases)
  next
    case nda: False
    show ?thesis
    proof (cases "startswith ''BRDA:'' l")
      case True
      with assms nda have "case re_match ''BRDA:'' l of None \<Rightarrow> True
           | Some ds \<Rightarrow> int_max_str_digits pf = 0 \<or> length ds \<le> int_max_str_digits pf"
        by (simp add: passable_def record_digits_cases)
      from keep_record_eq [OF this, of ex acc] True False nda show ?thesis
        by (simp add: filter_line_def record_number_def record_digits_cases)
    next
      case False
      with nda \<open>\<not> startswith ''SF:'' l\<close> show ?thesis
        by (simp add: filter_line_def record_number_def record_digits_cases)
    qed
  qed
qed

subsection \<open>What the filter drops\<close>

lemma filter_lines_append:
  "filter_lines pf fs (xs @ ys) st =
     (case filter_lines pf fs xs st of
        Inl e \<Rightarrow> Inl e
      | Inr st' \<Rightarrow> filter_lines pf fs ys st')"
  by (induction xs arbitrary: st) (auto split: sum.splits)

lemma filter_lines_snoc:
  "filter_lines pf fs (ls @ [l]) st =
     (case filter_lines pf fs ls st of Inl e \<Rightarrow> Inl e | Inr st' \<Rightarrow> filter_line pf fs st' l)"
  by (simp add: filter_lines_append split: sum.splits)

lemma exclusions_in_force_snoc:
  "exclusions_in_force fs (ls @ [l]) =
     (if startswith ''SF:'' l then named_source fs l else exclusions_in_force fs ls)"
  by (simp add: exclusions_in_force_def)

lemma nths_agree:
  "(\<And>i. i < length xs \<Longrightarrow> i \<in> A \<longleftrightarrow> i \<in> B) \<Longrightarrow> nths xs A = nths xs B"
  unfolding nths_def
  by (rule arg_cong [where f = "map fst"], rule filter_cong) (auto dest!: set_zip_rightD)

lemma dropped_snoc_old: "i < length ls \<Longrightarrow> dropped fs (ls @ [l]) i = dropped fs ls i"
  by (cases "record_number (ls ! i)") (simp_all add: dropped_def nth_append)

lemma kept_snoc:
  "nths (ls @ [l]) {i. \<not> dropped fs (ls @ [l]) i} =
     nths ls {i. \<not> dropped fs ls i} @
     (if (case record_number l of None \<Rightarrow> False | Some n \<Rightarrow> n \<in> exclusions_in_force fs ls)
      then [] else [l])"
proof -
  have "nths ls {i. \<not> dropped fs (ls @ [l]) i} = nths ls {i. \<not> dropped fs ls i}"
    by (rule nths_agree) (simp add: dropped_snoc_old)
  moreover have "dropped fs (ls @ [l]) (length ls) =
      (case record_number l of None \<Rightarrow> False | Some n \<Rightarrow> n \<in> exclusions_in_force fs ls)"
    by (cases "record_number l") (simp_all add: dropped_def)
  ultimately show ?thesis
    by (simp add: nths_append nths_singleton)
qed

lemma filter_lines_eq:
  assumes "\<forall>l\<in>set ls. passable pf fs l"
  shows "filter_lines pf fs ls ({}, []) =
     Inr (exclusions_in_force fs ls, nths ls {i. \<not> dropped fs ls i})"
  using assms
proof (induction ls rule: rev_induct)
  case Nil
  show ?case by (simp add: exclusions_in_force_def)
next
  case (snoc l ls)
  from snoc.prems have ok: "passable pf fs l" and rest: "\<forall>l\<in>set ls. passable pf fs l"
    by simp_all
  from snoc.IH [OF rest] filter_line_eq [OF ok] show ?case
    by (simp add: filter_lines_snoc exclusions_in_force_snoc kept_snoc)
qed

lemma concat_lines_of: "concat (lines_of s) = s"
  by (induction s) (auto split: list.splits)

lemma write_text_posix: "write_text [LF] s = s"
  by (induction s) (auto simp: write_text_def)

text \<open>
  C3, as amended. Take a coverage file that can be read as text, in which every \<open>SF:\<close>
  record names a source that is missing or can be read as text and no record has more
  digits than \<^verbatim>\<open>int\<close> converts, and an output path that can be opened. Then
  \<^verbatim>\<open>filter_lcov\<close> writes the input lines in order, without exactly those \<open>DA:\<close> and
  \<open>BRDA:\<close> records (tag, digits, comma) whose line number lies in the exclusion set of
  the current \<open>SF:\<close> source file. That set holds every line bearing the single-line
  marker, a start marker or a stop marker, and every line after a start marker up to the
  next line that bears a stop marker and no start marker, or to the end of the file
  when there is none; it is empty before the first \<open>SF:\<close> record and for a missing
  source. The lines kept are unmodified apart from the newline translation of text
  mode: \<open>\r\n\<close> and \<open>\r\<close> are read as \<open>\n\<close>, and \<open>\n\<close> is written as the line
  separator of the platform; with no carriage return in the input and \<open>\n\<close> as the
  separator they are written as they stand.
\<close>

theorem filter_lcov_drops_marked_records:
  assumes "fs input_path = File content"
      and "\<forall>l\<in>set (read_text content). passable pf fs l"
      and "fs output_path \<noteq> Unopenable"
  shows "filter_lcov pf fs input_path output_path =
           Inr (fs(output_path := File (write_text (linesep pf)
                  (concat (nths (read_text content)
                             {i. \<not> dropped fs (read_text content) i}))))) \<and>
         (CR \<notin> set content \<and> linesep pf = [LF] \<longrightarrow>
            concat (lines_of content) = content \<and>
            filter_lcov pf fs input_path output_path =
              Inr (fs(output_path := File
                     (concat (nths (lines_of content)
                                {i. \<not> dropped fs (lines_of content) i})))))"
proof -
  have a: "filter_lcov pf fs input_path output_path =
           Inr (fs(output_path := File (write_text (linesep pf)
                  (concat (nths (read_text content)
                             {i. \<not> dropped fs (read_text content) i})))))"
    using assms(1,3) filter_lines_eq [OF assms(2)]
    by (cases "fs output_path") (simp_all add: filter_lcov_def)
  have "read_text content = lines_of content" if "CR \<notin> set content"
    using that by (simp add: read_text_def universal_newlines_plain)
  with a show ?thesis by (auto simp: write_text_posix concat_lines_of)
qed

theorem filter_lcov_drops_marked_records_witness:
  "disk ''in.lcov'' = File coverage \<and>
   list_all (passable posix disk) (read_text coverage) \<and>
   disk ''out.lcov'' \<noteq> Unopenable \<and>
   CR \<notin> set coverage \<and> linesep posix = [LF] \<and>
   find_excluded_lines disk ''a.c'' = Inr {10, 11, 12, 13, 14, 15} \<and>
   filter_lcov posix disk ''in.lcov'' ''out.lcov'' =
     Inr (disk(''out.lcov'' :=
       File (''SF:a.c'' @ [LF] @ ''DA:20,1'' @ [LF] @ ''end_of_record'' @ [LF]))) \<and>
   concat (nths (lines_of coverage) {i. \<not> dropped disk (lines_of coverage) i}) =
     ''SF:a.c'' @ [LF] @ ''DA:20,1'' @ [LF] @ ''end_of_record'' @ [LF]"
proof -
  have rt: "read_text coverage =
    [''SF:a.c'' @ [LF], ''DA:12,3'' @ [LF], ''DA:20,1'' @ [LF], ''end_of_record'' @ [LF]]"
    by (simp add: read_text_def coverage_def)
  have h1: "disk ''in.lcov'' = File coverage" by (simp add: disk_def)
  have h2: "\<forall>l\<in>set (read_text coverage). passable posix disk l"
    unfolding rt
    by (simp add: passable_def record_digits_def re_match_def startswith_def strip_def
                  isspace_def isdigit_def disk_def posix_def)
  have h3: "disk ''out.lcov'' \<noteq> Unopenable" by (simp add: disk_def)
  have h4: "CR \<notin> set coverage" by (simp add: coverage_def)
  have h5: "linesep posix = [LF]" by (simp add: posix_def)
  have v1: "find_excluded_lines disk ''a.c'' = Inr {10, 11, 12, 13, 14, 15}"
    by code_simp
  have v2: "filter_lcov posix disk ''in.lcov'' ''out.lcov'' =
     Inr (disk(''out.lcov'' :=
       File (''SF:a.c'' @ [LF] @ ''DA:20,1'' @ [LF] @ ''end_of_record'' @ [LF])))"
    by (simp add: lcov_defs disk_def coverage_def a_c_def posix_def upt_rec)
  from filter_lcov_drops_marked_records [OF h1 h2 h3, THEN conjunct2] h4 h5
  have "filter_lcov posix disk ''in.lcov'' ''out.lcov'' =
     Inr (disk(''out.lcov'' := File (concat (nths (lines_of coverage)
            {i. \<not> dropped disk (lines_of coverage) i}))))"
    by blast
  with v2 have "disk(''out.lcov'' := File (concat (nths (lines_of coverage)
            {i. \<not> dropped disk (lines_of coverage) i}))) =
        disk(''out.lcov'' :=
       File (''SF:a.c'' @ [LF] @ ''DA:20,1'' @ [LF] @ ''end_of_record'' @ [LF]))"
    by simp
  then have "(disk(''out.lcov'' := File (concat (nths (lines_of coverage)
            {i. \<not> dropped disk (lines_of coverage) i})))) ''out.lcov'' =
        (disk(''out.lcov'' :=
       File (''SF:a.c'' @ [LF] @ ''DA:20,1'' @ [LF] @ ''end_of_record'' @ [LF]))) ''out.lcov''"
    by (rule arg_cong [where f = "\<lambda>f. f ''out.lcov''"])
  then have v3: "concat (nths (lines_of coverage) {i. \<not> dropped disk (lines_of coverage) i}) =
     ''SF:a.c'' @ [LF] @ ''DA:20,1'' @ [LF] @ ''end_of_record'' @ [LF]"
    by simp
  from h1 h2 h3 h4 h5 v1 v2 v3 show ?thesis by (simp add: list_all_iff)
qed

text \<open>
  A stop marker with no start marker before it: line 1 of the source bears neither the
  single-line marker nor lies between a start marker and its stop marker, and still the
  record \<open>DA:1,1\<close> is dropped.
\<close>

theorem stray_stop_counterexample:
  "disk ''b.c'' = File (''} // LCOV_EXCL_STOP'' @ [LF]) \<and>
   read_text (''} // LCOV_EXCL_STOP'' @ [LF]) = [''} // LCOV_EXCL_STOP'' @ [LF]] \<and>
   filter_lcov posix disk ''stray.lcov'' ''out.lcov'' =
     Inr (disk(''out.lcov'' := File (''SF:b.c'' @ [LF]))) \<and>
   1 \<notin> spec_excluded [''} // LCOV_EXCL_STOP'' @ [LF]]"
proof -
  have a: "disk ''b.c'' = File (''} // LCOV_EXCL_STOP'' @ [LF])" by (simp add: disk_def)
  have r: "read_text (''} // LCOV_EXCL_STOP'' @ [LF]) = [''} // LCOV_EXCL_STOP'' @ [LF]]"
    by (simp add: read_text_def)
  have b: "filter_lcov posix disk ''stray.lcov'' ''out.lcov'' =
     Inr (disk(''out.lcov'' := File (''SF:b.c'' @ [LF])))"
    by (simp add: lcov_defs disk_def posix_def)
  have c: "1 \<notin> spec_excluded [''} // LCOV_EXCL_STOP'' @ [LF]]"
    by (simp add: spec_excluded_def has_marker_def startswith_def)
  from a r b c show ?thesis by blast
qed

subsection \<open>Sources that are not there\<close>

lemma keep_all_without_exclusions:
  "\<forall>l\<in>set records. \<not> startswith ''SF:'' l \<and> passable pf fs l \<Longrightarrow>
     filter_lines pf fs records ({}, acc) = Inr ({}, acc @ records)"
proof (induction records arbitrary: acc)
  case Nil
  show ?case by simp
next
  case (Cons l ls)
  then have "passable pf fs l" "\<not> startswith ''SF:'' l" by simp_all
  then have "filter_line pf fs ({}, acc) l = Inr ({}, acc @ [l])"
    using filter_line_eq [of pf fs l "{}" acc] by (cases "record_number l") simp_all
  with Cons show ?case by simp
qed

lemma filtered_lines_grow:
  "filter_lines pf fs ls (ex, acc) = Inr (ex', acc') \<Longrightarrow> \<exists>rest. acc' = acc @ rest"
proof (induction ls arbitrary: ex acc)
  case Nil
  then show ?case by simp
next
  case (Cons l ls)
  from Cons.prems obtain ex1 acc1 where
    s: "filter_line pf fs (ex, acc) l = Inr (ex1, acc1)"
    and r: "filter_lines pf fs ls (ex1, acc1) = Inr (ex', acc')"
    by (auto split: sum.splits)
  from s have "acc1 = acc \<or> acc1 = acc @ [l]"
    by (auto simp: filter_line_def keep_record_def
             split: if_splits sum.splits option.splits)
  with Cons.IH [OF r] show ?case by auto
qed

text \<open>
  C10, as amended. Wherever in the coverage file an \<open>SF:\<close> record names a source file
  that does not exist, \<^verbatim>\<open>find_excluded_lines\<close> returns the empty set, and every line
  from that record up to the next \<open>SF:\<close> record, the \<open>DA:\<close> and \<open>BRDA:\<close> records among
  them (with no more digits than \<^verbatim>\<open>int\<close> converts), is kept as it was read; the loop
  goes on with the lines after them, and whenever the invocation ends with a file
  written, that file holds them. The missing source does not make the invocation fail.
  A source that exists and cannot be opened, or is not text, is another matter.
\<close>

theorem missing_source_excludes_nothing:
  assumes "fs input_path = File content"
      and "read_text content = before @ sf # records @ after"
      and "startswith ''SF:'' sf"
      and "fs (strip (drop 3 sf)) = Missing"
      and "\<forall>l\<in>set records. \<not> startswith ''SF:'' l \<and> passable pf fs l"
      and "filter_lines pf fs before ({}, []) = Inr (ex, kept)"
  shows "find_excluded_lines fs (strip (drop 3 sf)) = Inr {} \<and>
         filter_lines pf fs (before @ sf # records) ({}, []) =
           Inr ({}, kept @ sf # records) \<and>
         filter_lines pf fs (read_text content) ({}, []) =
           filter_lines pf fs after ({}, kept @ sf # records) \<and>
         (\<forall>fs'. filter_lcov pf fs input_path output_path = Inr fs' \<longrightarrow>
            (\<exists>rest. fs' output_path =
               File (write_text (linesep pf) (concat (kept @ sf # records @ rest)))))"
proof -
  have a: "find_excluded_lines fs (strip (drop 3 sf)) = Inr {}"
    using assms(4) by (simp add: find_excluded_lines_def)
  have "filter_line pf fs (ex, kept) sf = Inr ({}, kept @ [sf])"
    using assms(3) a by (simp add: filter_line_def)
  then have "filter_lines pf fs (sf # records) (ex, kept) = Inr ({}, kept @ sf # records)"
    using keep_all_without_exclusions [OF assms(5), of "kept @ [sf]"] by simp
  with assms(6) have b: "filter_lines pf fs (before @ sf # records) ({}, []) =
      Inr ({}, kept @ sf # records)"
    by (simp add: filter_lines_append)
  have c: "filter_lines pf fs (read_text content) ({}, []) =
           filter_lines pf fs after ({}, kept @ sf # records)"
    using b filter_lines_append [of pf fs "before @ sf # records" after "({}, [])"]
    by (simp add: assms(2))
  have d: "\<exists>rest. fs' output_path =
               File (write_text (linesep pf) (concat (kept @ sf # records @ rest)))"
    if run: "filter_lcov pf fs input_path output_path = Inr fs'" for fs'
  proof -
    from run assms(1) obtain ex' acc' where
      fl: "filter_lines pf fs (read_text content) ({}, []) = Inr (ex', acc')"
      and out: "fs' = fs(output_path := File (write_text (linesep pf) (concat acc')))"
      by (auto simp: filter_lcov_def split: sum.splits fs_entry.splits)
    from fl c have "filter_lines pf fs after ({}, kept @ sf # records) = Inr (ex', acc')"
      by simp
    from filtered_lines_grow [OF this] obtain rest where
      "acc' = (kept @ sf # records) @ rest" by blast
    with out show ?thesis by auto
  qed
  from a b c d show ?thesis by blast
qed

theorem missing_source_excludes_nothing_witness:
  "disk ''gone.lcov'' =
     File (''SF:gone.c'' @ [LF] @ ''DA:1,1'' @ [LF] @ ''SF:a.c'' @ [LF] @ ''DA:12,3'' @ [LF]) \<and>
   read_text (''SF:gone.c'' @ [LF] @ ''DA:1,1'' @ [LF] @ ''SF:a.c'' @ [LF] @ ''DA:12,3'' @ [LF]) =
     [] @ (''SF:gone.c'' @ [LF]) # [''DA:1,1'' @ [LF]] @ [''SF:a.c'' @ [LF], ''DA:12,3'' @ [LF]] \<and>
   startswith ''SF:'' (''SF:gone.c'' @ [LF]) \<and>
   disk (strip (drop 3 (''SF:gone.c'' @ [LF]))) = Missing \<and>
   list_all (\<lambda>l. \<not> startswith ''SF:'' l \<and> passable posix disk l) [''DA:1,1'' @ [LF]] \<and>
   filter_lines posix disk [] ({}, []) = Inr ({}, []) \<and>
   find_excluded_lines disk ''gone.c'' = Inr {} \<and>
   filter_lcov posix disk ''gone.lcov'' ''out.lcov'' =
     Inr (disk(''out.lcov'' :=
       File (''SF:gone.c'' @ [LF] @ ''DA:1,1'' @ [LF] @ ''SF:a.c'' @ [LF])))"
proof -
  let ?content = "''SF:gone.c'' @ [LF] @ ''DA:1,1'' @ [LF] @ ''SF:a.c'' @ [LF] @ ''DA:12,3'' @ [LF]"
  have p: "strip (drop 3 (''SF:gone.c'' @ [LF])) = ''gone.c''" by (simp add: lcov_defs)
  have h1: "disk ''gone.lcov'' = File ?content" by (simp add: disk_def)
  have h2: "read_text ?content =
     [] @ (''SF:gone.c'' @ [LF]) # [''DA:1,1'' @ [LF]] @ [''SF:a.c'' @ [LF], ''DA:12,3'' @ [LF]]"
    by (simp add: read_text_def)
  have h3: "startswith ''SF:'' (''SF:gone.c'' @ [LF])" by (simp add: startswith_def)
  have h4: "disk (strip (drop 3 (''SF:gone.c'' @ [LF]))) = Missing"
    unfolding p by (simp add: disk_def)
  have h5: "\<forall>l\<in>set [''DA:1,1'' @ [LF]]. \<not> startswith ''SF:'' l \<and> passable posix disk l"
    by (simp add: passable_def record_digits_def re_match_def startswith_def isdigit_def
                  posix_def)
  have h6: "filter_lines posix disk [] ({}, []) = Inr ({}, [])" by simp
  have v: "filter_lcov posix disk ''gone.lcov'' ''out.lcov'' =
     Inr (disk(''out.lcov'' :=
       File (''SF:gone.c'' @ [LF] @ ''DA:1,1'' @ [LF] @ ''SF:a.c'' @ [LF])))"
    by (simp add: lcov_defs disk_def a_c_def posix_def upt_rec)
  from missing_source_excludes_nothing [OF h1 h2 h3 h4 h5 h6, where output_path = "''out.lcov''"]
  have "find_excluded_lines disk ''gone.c'' = Inr {}" unfolding p by blast
  with h1 h2 h3 h4 h5 h6 v show ?thesis by (simp add: list_all_iff)
qed

text \<open>
  A source that exists and cannot be opened, and one that opens but is not text: only
  \<^verbatim>\<open>FileNotFoundError\<close> is caught, so the exception leaves \<^verbatim>\<open>find_excluded_lines\<close> and
  the invocation fails.
\<close>

theorem unreadable_source_counterexample:
  "disk ''secret.c'' = Unopenable \<and>
   find_excluded_lines disk ''secret.c'' = Inl OtherOpenError \<and>
   filter_lcov posix disk ''secret.lcov'' ''out.lcov'' = Inl OtherOpenError \<and>
   disk ''blob.bin'' = Undecodable \<and>
   find_excluded_lines disk ''blob.bin'' = Inl UnicodeDecodeError \<and>
   filter_lcov posix disk ''blob.lcov'' ''out.lcov'' = Inl UnicodeDecodeError"
  by (simp add: lcov_defs disk_def posix_def)

end
